theory Spec2Isabelle
  imports Complex_Main "HOL-Library.Sublist"
begin

section \<open>The SQLite store for sessions and tasks (store.ts)\<close>

text \<open>
  The store keeps two tables. A table is modelled by the list of its rows in insertion
  order; the \<open>sessions\<close> table, which is only ever read and written through its primary
  key, is a map. \<open>Date.now()\<close> is an explicit argument of every operation that reads the
  clock. JavaScript strings are modelled by \<open>string\<close>, one \<open>char\<close> for each code unit.
\<close>

datatype TaskState = submitted | working | input_required | completed | failed | canceled

record Part =
  ptype :: string
  ptext :: "string option"

record TaskArtifact =
  name :: string
  parts :: "Part list"
  append_flag :: "bool option"

record TaskStatus =
  status_state :: TaskState
  status_message :: "string option"

record Task =
  task_id :: string
  contextId :: string
  status :: TaskStatus
  task_artifacts :: "TaskArtifact list"
  createdAt :: nat
  updatedAt :: nat

text \<open>A row of the \<open>tasks\<close> table; the column \<open>artifacts\<close> holds the JSON text of the
  artifact list, modelled by the list itself (\<open>JSON.parse\<close> inverts \<open>JSON.stringify\<close> on
  these values).\<close>

record TaskRow =
  row_id :: string
  context_id :: string
  state :: TaskState
  message :: "string option"
  artifacts :: "TaskArtifact list"
  created_at :: nat
  updated_at :: nat

record SessionRow =
  response_id :: string
  session_updated_at :: nat

record Store =
  sessions :: "string \<rightharpoonup> SessionRow"
  tasks :: "TaskRow list"

datatype StoreError = ConstraintViolation string

definition getSession :: "Store \<Rightarrow> string \<Rightarrow> string option" where
  "getSession st cid = map_option response_id (sessions st cid)"

definition setSession :: "Store \<Rightarrow> nat \<Rightarrow> string \<Rightarrow> string \<Rightarrow> Store" where
  "setSession st now cid rid =
     st\<lparr>sessions := (sessions st)(cid \<mapsto> \<lparr>response_id = rid, session_updated_at = now\<rparr>)\<rparr>"

text \<open>\<open>row.message ? { message } : {}\<close>: a NULL and an empty message both give a status
  without a message.\<close>

definition rowToTask :: "TaskRow \<Rightarrow> Task" where
  "rowToTask row =
     \<lparr>task_id = row_id row,
      contextId = context_id row,
      status = \<lparr>status_state = state row,
                status_message = (case message row of
                                    None \<Rightarrow> None
                                  | Some m \<Rightarrow> if m = [] then None else Some m)\<rparr>,
      task_artifacts = artifacts row,
      createdAt = created_at row,
      updatedAt = updated_at row\<rparr>"

text \<open>\<open>INSERT INTO tasks\<close>: the primary key \<open>id\<close> rejects a second row with the same
  id, and the statement throws.\<close>

definition createTask :: "Store \<Rightarrow> nat \<Rightarrow> string \<Rightarrow> string \<Rightarrow> StoreError + (Store \<times> Task)" where
  "createTask st now tid cid =
     (if tid \<in> set (map row_id (tasks st)) then Inl (ConstraintViolation tid)
      else
        let row = \<lparr>row_id = tid, context_id = cid, state = submitted, message = None,
                   artifacts = [], created_at = now, updated_at = now\<rparr>
        in Inr (st\<lparr>tasks := tasks st @ [row]\<rparr>,
                \<lparr>task_id = tid, contextId = cid,
                 status = \<lparr>status_state = submitted, status_message = None\<rparr>,
                 task_artifacts = [], createdAt = now, updatedAt = now\<rparr>))"

definition getTask :: "Store \<Rightarrow> string \<Rightarrow> Task option" where
  "getTask st tid = map_option rowToTask (find (\<lambda>r. row_id r = tid) (tasks st))"

text \<open>\<open>SELECT ... WHERE context_id = ? AND state = 'input-required' ORDER BY updated_at
  DESC LIMIT 1\<close>. Among rows with the same \<open>updated_at\<close> SQL leaves the choice open; the
  model takes the earliest inserted one.\<close>

fun newest :: "TaskRow list \<Rightarrow> TaskRow option" where
  "newest [] = None"
| "newest (r # rs) =
     (case newest rs of
        None \<Rightarrow> Some r
      | Some r' \<Rightarrow> if updated_at r' > updated_at r then Some r' else Some r)"

definition getActiveTask :: "Store \<Rightarrow> string \<Rightarrow> Task option" where
  "getActiveTask st cid =
     map_option rowToTask
       (newest (filter (\<lambda>r. context_id r = cid \<and> state r = input_required) (tasks st)))"

text \<open>\<open>UPDATE tasks SET state = ?, message = ?, updated_at = ? WHERE id = ?\<close>, with
  \<open>message ?? null\<close> for the message.\<close>

definition updateTaskStatus ::
  "Store \<Rightarrow> nat \<Rightarrow> string \<Rightarrow> TaskState \<Rightarrow> string option \<Rightarrow> Store" where
  "updateTaskStatus st now tid s m =
     st\<lparr>tasks := map (\<lambda>r. if row_id r = tid
                           then r\<lparr>state := s, message := m, updated_at := now\<rparr>
                           else r) (tasks st)\<rparr>"

definition setTaskArtifacts :: "Store \<Rightarrow> nat \<Rightarrow> string \<Rightarrow> TaskArtifact list \<Rightarrow> Store" where
  "setTaskArtifacts st now tid arts =
     st\<lparr>tasks := map (\<lambda>r. if row_id r = tid
                           then r\<lparr>artifacts := arts, updated_at := now\<rparr>
                           else r) (tasks st)\<rparr>"

text \<open>The body of the \<open>else\<close> branch of \<open>appendToTaskArtifact\<close> on the parts of the first
  artifact: \<open>find\<close> the first part of type text and extend its text
  (\<open>textPart.text ?? ""\<close>), or \<open>push\<close> a new text part when there is none.\<close>

fun appendText :: "string \<Rightarrow> Part list \<Rightarrow> Part list" where
  "appendText txt [] = [\<lparr>ptype = ''text'', ptext = Some txt\<rparr>]"
| "appendText txt (p # ps) =
     (if ptype p = ''text''
      then p\<lparr>ptext := Some ((case ptext p of None \<Rightarrow> [] | Some t \<Rightarrow> t) @ txt)\<rparr> # ps
      else p # appendText txt ps)"

definition appendToTaskArtifact :: "Store \<Rightarrow> nat \<Rightarrow> string \<Rightarrow> string \<Rightarrow> Store" where
  "appendToTaskArtifact st now tid txt =
     (case getTask st tid of
        None \<Rightarrow> st
      | Some task \<Rightarrow>
          setTaskArtifacts st now tid
            (case task_artifacts task of
               [] \<Rightarrow> [\<lparr>name = ''response'',
                       parts = [\<lparr>ptype = ''text'', ptext = Some txt\<rparr>],
                       append_flag = None\<rparr>]
             | a # rest \<Rightarrow> a\<lparr>parts := appendText txt (parts a)\<rparr> # rest))"

text \<open>The text an artifact carries: that of its first part of type text, empty when
  there is no such part or the part has no text.\<close>

definition textOf :: "TaskArtifact \<Rightarrow> string" where
  "textOf a = (case find (\<lambda>p. ptype p = ''text'') (parts a) of
                 None \<Rightarrow> []
               | Some p \<Rightarrow> (case ptext p of None \<Rightarrow> [] | Some t \<Rightarrow> t))"


section \<open>The A2A JSON-RPC endpoint (server.ts, SQLite-backed variant)\<close>

record A2AMessage =
  role :: string
  message_parts :: "Part list"

record Params =
  params_message :: "A2AMessage option"
  params_contextId :: "string option"
  params_id :: "string option"

record A2AJsonRpcRequest =
  rpc_id :: string
  rpc_method :: string
  params :: "Params option"

text \<open>\<open>taskToA2A\<close>: the task as it is put on the wire (its \<open>kind\<close> is always "task").\<close>

record A2ATask =
  a2a_id :: string
  a2a_contextId :: string
  a2a_status :: TaskStatus
  a2a_artifacts :: "TaskArtifact list"

datatype SseEvent =
    StatusUpdate string string TaskState "string option"
  | ArtifactUpdate string string TaskArtifact
  | TaskSnapshot A2ATask
  | Done

text \<open>What the endpoint answers: a JSON-RPC error (HTTP status, code, message), a result, or
  the events written to an SSE stream.\<close>

datatype Reply =
    ErrorReply nat int string
  | ResultReply A2ATask
  | StreamReply "SseEvent list"

text \<open>The generation collaborator \<open>run(agent, ...)\<close> is outside the repository. One run is
  described by what it does to the server: whether the agent calls the
  \<open>request_clarification\<close> tool, the events its stream yields, and how it ends: with
  \<open>finalOutput\<close> and \<open>lastResponseId\<close>, or by throwing an \<open>Error\<close> with a message.\<close>

datatype StreamEvent = TextDelta "string option" | OtherEvent

datatype RunEnd = Returned "string option" "string option" | Threw string

record Run =
  asks :: bool
  events :: "StreamEvent list"
  ending :: RunEnd

text \<open>What a request reads from outside: the clock, the values \<open>uuidv4()\<close> returns for a
  missing context id and for a new task id, and the run.\<close>

record Env =
  now :: nat
  ctx_uuid :: string
  task_uuid :: string
  run :: Run

text \<open>The variables \<open>createServer\<close> closes over. An \<open>AbortController\<close> is an object with
  identity: the map holds a reference (a number), and \<open>aborted\<close> is the set of
  controllers whose signal is aborted.\<close>

record Server =
  store :: Store
  inputRequiredFlags :: "string \<rightharpoonup> bool"
  activeRunTaskId :: "string option"
  abortControllers :: "string \<rightharpoonup> nat"
  aborted :: "nat set"
  controllers :: nat

fun join :: "string \<Rightarrow> string list \<Rightarrow> string" where
  "join sep [] = []"
| "join sep [x] = x"
| "join sep (x # y # ys) = x @ sep @ join sep (y # ys)"

definition truthy :: "string option \<Rightarrow> bool" where
  "truthy v = (case v of None \<Rightarrow> False | Some t \<Rightarrow> t \<noteq> [])"

definition extractText :: "A2AMessage \<Rightarrow> string" where
  "extractText m =
     join ''\<newline>'' (map (\<lambda>p. the (ptext p))
                   (filter (\<lambda>p. ptype p = ''text'' \<and> truthy (ptext p)) (message_parts m)))"

definition taskToA2A :: "Task \<Rightarrow> A2ATask" where
  "taskToA2A task =
     \<lparr>a2a_id = task_id task, a2a_contextId = contextId task,
      a2a_status = status task, a2a_artifacts = task_artifacts task\<rparr>"

fun stateName :: "TaskState \<Rightarrow> string" where
  "stateName submitted = ''submitted''"
| "stateName working = ''working''"
| "stateName input_required = ''input-required''"
| "stateName completed = ''completed''"
| "stateName failed = ''failed''"
| "stateName canceled = ''canceled''"

text \<open>The callback given to \<open>createOracleAgent\<close>, fired by the \<open>request_clarification\<close>
  tool: \<open>if (activeRunTaskId) inputRequiredFlags.set(activeRunTaskId, true)\<close>.\<close>

definition onInputRequired :: "Server \<Rightarrow> Server" where
  "onInputRequired srv =
     (if truthy (activeRunTaskId srv)
      then srv\<lparr>inputRequiredFlags := (inputRequiredFlags srv)(the (activeRunTaskId srv) \<mapsto> True)\<rparr>
      else srv)"

text \<open>\<open>resolveTask\<close>: the id of the task the turn works on and whether it is resumed.
  \<open>createTask\<close> throws when the new id is taken.\<close>

definition resolveTask ::
  "Store \<Rightarrow> nat \<Rightarrow> string \<Rightarrow> string \<Rightarrow> StoreError + (Store \<times> string \<times> bool)" where
  "resolveTask st t cid fresh =
     (case getActiveTask st cid of
        Some active \<Rightarrow> Inr (st, task_id active, True)
      | None \<Rightarrow>
          (case createTask st t fresh cid of
             Inl e \<Rightarrow> Inl e
           | Inr (st', _) \<Rightarrow> Inr (st', fresh, False)))"

definition resolveEndState :: "Server \<Rightarrow> string \<Rightarrow> TaskState \<times> Server" where
  "resolveEndState srv tid =
     (let flagged = inputRequiredFlags srv tid
      in (if flagged = Some True then input_required else completed,
          srv\<lparr>inputRequiredFlags := (inputRequiredFlags srv)(tid := None)\<rparr>))"

fun errorMessage :: "StoreError \<Rightarrow> string" where
  "errorMessage (ConstraintViolation tid) = ''UNIQUE constraint failed: tasks.id''"

text \<open>The outer \<open>catch\<close> of the route: headers are not sent yet, so the error is answered
  with status 500 and code -32603.\<close>

definition internalError :: "string \<Rightarrow> Reply" where
  "internalError msg = ErrorReply 500 (- 32603) msg"

definition tasks_get :: "Server \<Rightarrow> Params option \<Rightarrow> Server \<times> Reply" where
  "tasks_get srv ps =
     (let taskId = (case ps of None \<Rightarrow> None | Some p \<Rightarrow> params_id p)
      in if \<not> truthy taskId
         then (srv, ErrorReply 400 (- 32602) ''Missing task id in params'')
         else (case getTask (store srv) (the taskId) of
                 None \<Rightarrow> (srv, ErrorReply 404 (- 32001) (''Task not found: '' @ the taskId))
               | Some task \<Rightarrow> (srv, ResultReply (taskToA2A task))))"

definition tasks_cancel :: "Server \<Rightarrow> nat \<Rightarrow> Params option \<Rightarrow> Server \<times> Reply" where
  "tasks_cancel srv t ps =
     (let taskId = (case ps of None \<Rightarrow> None | Some p \<Rightarrow> params_id p)
      in if \<not> truthy taskId
         then (srv, ErrorReply 400 (- 32602) ''Missing task id in params'')
         else (case getTask (store srv) (the taskId) of
                 None \<Rightarrow> (srv, ErrorReply 404 (- 32001) (''Task not found: '' @ the taskId))
               | Some task \<Rightarrow>
                   if status_state (status task) = completed \<or> status_state (status task) = failed
                   then (srv, ErrorReply 400 (- 32002)
                                (''Task already '' @ stateName (status_state (status task))))
                   else
                     let srv1 = (case abortControllers srv (the taskId) of
                                   None \<Rightarrow> srv
                                 | Some ac \<Rightarrow>
                                     srv\<lparr>aborted := insert ac (aborted srv),
                                         abortControllers := (abortControllers srv)(the taskId := None)\<rparr>);
                         st = updateTaskStatus (store srv1) t (the taskId) canceled
                                (Some ''Canceled by client'')
                     in (case getTask st (the taskId) of
                           None \<Rightarrow> (srv1\<lparr>store := st\<rparr>,
                                     internalError ''Cannot read properties of undefined'')
                         | Some updated \<Rightarrow>
                             (srv1\<lparr>store := st\<rparr>, ResultReply (taskToA2A updated)))))"


text \<open>What a request handler keeps in its local variables across the \<open>await\<close> of the run.\<close>

record Turn =
  turn_taskId :: string
  turn_contextId :: string
  previousResponseId :: "string option"
  turn_ac :: nat
  fullText :: string
  stopped :: bool
  sent :: "SseEvent list"

definition responseArtifact :: "string \<Rightarrow> TaskArtifact" where
  "responseArtifact txt =
     \<lparr>name = ''response'', parts = [\<lparr>ptype = ''text'', ptext = Some txt\<rparr>], append_flag = None\<rparr>"

text \<open>\<open>message/send\<close> up to the call of \<open>run\<close>: the checks of the parameters, the
  resolution of the task, and the transition to \<open>working\<close>. Every early exit leaves the
  server as it was.\<close>

definition send_begin :: "Server \<Rightarrow> Env \<Rightarrow> Params option \<Rightarrow> Reply + (Server \<times> Turn)" where
  "send_begin srv env ps =
     (case (case ps of None \<Rightarrow> None | Some p \<Rightarrow> params_message p) of
        None \<Rightarrow> Inl (ErrorReply 400 (- 32602) ''Missing message in params'')
      | Some msg \<Rightarrow>
          let userText = extractText msg
          in if userText = [] then Inl (ErrorReply 400 (- 32602) ''Empty message text'')
             else
               let cid = (case params_contextId (the ps) of None \<Rightarrow> ctx_uuid env | Some c \<Rightarrow> c)
               in (case resolveTask (store srv) (now env) cid (task_uuid env) of
                     Inl e \<Rightarrow> Inl (internalError (errorMessage e))
                   | Inr (st, taskId, resumed) \<Rightarrow>
                       let prev = getSession st cid;
                           st1 = updateTaskStatus st (now env) taskId working
                                   (Some (if resumed then ''Continuing...'' else ''Thinking...''))
                       in Inr (srv\<lparr>store := st1, activeRunTaskId := Some taskId\<rparr>,
                               \<lparr>turn_taskId = taskId, turn_contextId = cid,
                                previousResponseId = prev, turn_ac = 0, fullText = [],
                                stopped = False, sent = []\<rparr>)))"

text \<open>The \<open>catch\<close> block of \<open>message/send\<close>: the task fails with the error's message and
  the error is thrown on to the outer \<open>catch\<close>.\<close>

definition send_catch :: "Server \<Rightarrow> nat \<Rightarrow> Turn \<Rightarrow> string \<Rightarrow> Server \<times> Reply" where
  "send_catch srv t turn msg =
     (srv\<lparr>activeRunTaskId := None,
          inputRequiredFlags := (inputRequiredFlags srv)(turn_taskId turn := None),
          store := updateTaskStatus (store srv) t (turn_taskId turn) failed (Some msg)\<rparr>,
      internalError msg)"

text \<open>\<open>message/send\<close> after the run has ended.\<close>

definition send_finish :: "Server \<Rightarrow> nat \<Rightarrow> Turn \<Rightarrow> RunEnd \<Rightarrow> Server \<times> Reply" where
  "send_finish srv t turn e =
     (case e of
        Threw msg \<Rightarrow> send_catch srv t turn msg
      | Returned finalOutput lastResponseId \<Rightarrow>
          let srv1 = srv\<lparr>activeRunTaskId := None\<rparr>;
              output = (case finalOutput of
                          None \<Rightarrow> ''I was unable to generate a response.''
                        | Some out \<Rightarrow> out);
              st1 = (if truthy lastResponseId
                     then setSession (store srv1) t (turn_contextId turn) (the lastResponseId)
                     else store srv1);
              (endState, srv2) = resolveEndState srv1 (turn_taskId turn);
              st2 = setTaskArtifacts st1 t (turn_taskId turn) [responseArtifact output];
              st3 = updateTaskStatus st2 t (turn_taskId turn) endState None;
              srv3 = srv2\<lparr>store := st3\<rparr>
          in (case getTask st3 (turn_taskId turn) of
                None \<Rightarrow> send_catch srv3 t turn ''Cannot read properties of undefined''
              | Some task \<Rightarrow> (srv3, ResultReply (taskToA2A task))))"

text \<open>A whole \<open>message/send\<close> request with nothing else running in between.\<close>

definition message_send :: "Server \<Rightarrow> Env \<Rightarrow> Params option \<Rightarrow> Server \<times> Reply" where
  "message_send srv env ps =
     (case send_begin srv env ps of
        Inl reply \<Rightarrow> (srv, reply)
      | Inr (srv1, turn) \<Rightarrow>
          send_finish (if asks (run env) then onInputRequired srv1 else srv1)
            (now env) turn (ending (run env)))"

text \<open>\<open>message/stream\<close> up to the call of \<open>run\<close>.\<close>

definition stream_begin :: "Server \<Rightarrow> Env \<Rightarrow> Params option \<Rightarrow> Reply + (Server \<times> Turn)" where
  "stream_begin srv env ps =
     (case (case ps of None \<Rightarrow> None | Some p \<Rightarrow> params_message p) of
        None \<Rightarrow> Inl (ErrorReply 400 (- 32602) ''Missing message in params'')
      | Some msg \<Rightarrow>
          let userText = extractText msg
          in if userText = [] then Inl (ErrorReply 400 (- 32602) ''Empty message text'')
             else
               let cid = (case params_contextId (the ps) of None \<Rightarrow> ctx_uuid env | Some c \<Rightarrow> c)
               in (case resolveTask (store srv) (now env) cid (task_uuid env) of
                     Inl e \<Rightarrow> Inl (internalError (errorMessage e))
                   | Inr (st, taskId, resumed) \<Rightarrow>
                       let prev = getSession st cid;
                           ac = controllers srv;
                           st1 = (if resumed then setTaskArtifacts st (now env) taskId [] else st);
                           workingMsg = (if resumed then ''Continuing...'' else ''Thinking...'');
                           st2 = updateTaskStatus st1 (now env) taskId working (Some workingMsg)
                       in Inr (srv\<lparr>store := st2, activeRunTaskId := Some taskId,
                                   abortControllers := (abortControllers srv)(taskId \<mapsto> ac),
                                   controllers := Suc (controllers srv)\<rparr>,
                               \<lparr>turn_taskId = taskId, turn_contextId = cid,
                                previousResponseId = prev, turn_ac = ac, fullText = [],
                                stopped = False,
                                sent = [StatusUpdate taskId cid working (Some workingMsg)]\<rparr>)))"

text \<open>One round of the \<open>for await\<close> loop.\<close>

definition stream_event :: "nat \<Rightarrow> Server \<times> Turn \<Rightarrow> StreamEvent \<Rightarrow> Server \<times> Turn" where
  "stream_event t st ev =
     (let srv = fst st; turn = snd st
      in if stopped turn then st
         else if turn_ac turn \<in> aborted srv then (srv, turn\<lparr>stopped := True\<rparr>)
         else (case ev of
                 OtherEvent \<Rightarrow> st
               | TextDelta d \<Rightarrow>
                   let delta = (case d of None \<Rightarrow> [] | Some x \<Rightarrow> x)
                   in (srv\<lparr>store := appendToTaskArtifact (store srv) t (turn_taskId turn) delta\<rparr>,
                       turn\<lparr>fullText := fullText turn @ delta,
                            sent := sent turn @
                              [ArtifactUpdate (turn_taskId turn) (turn_contextId turn)
                                 ((responseArtifact delta)\<lparr>append_flag := Some True\<rparr>)]\<rparr>)))"

text \<open>The snapshot event \<open>sendEvent(taskToA2A(store.getTask(taskId)!))\<close>.\<close>

definition snapshot :: "Store \<Rightarrow> string \<Rightarrow> SseEvent list" where
  "snapshot st tid = (case getTask st tid of None \<Rightarrow> [] | Some task \<Rightarrow> [TaskSnapshot (taskToA2A task)])"

text \<open>\<open>message/stream\<close> after the loop: the \<open>catch\<close> block when the run threw, the
  cancellation branch when the signal is aborted, the normal end otherwise; the
  \<open>finally\<close> block forgets the controller in each case.\<close>

definition stream_finish :: "Server \<Rightarrow> nat \<Rightarrow> Turn \<Rightarrow> RunEnd \<Rightarrow> Server \<times> Reply" where
  "stream_finish srv t turn e =
     (let tid = turn_taskId turn; cid = turn_contextId turn;
          forget = (\<lambda>s. s\<lparr>abortControllers := (abortControllers s)(tid := None)\<rparr>)
      in if \<not> stopped turn \<and> (case e of Threw _ \<Rightarrow> True | Returned _ _ \<Rightarrow> False)
         then
           let msg = (case e of Threw m \<Rightarrow> m | Returned _ _ \<Rightarrow> []);
               st = updateTaskStatus (store srv) t tid failed (Some msg)
           in (forget (srv\<lparr>activeRunTaskId := None,
                           inputRequiredFlags := (inputRequiredFlags srv)(tid := None),
                           store := st\<rparr>),
               StreamReply (sent turn @ [StatusUpdate tid cid failed (Some msg)] @
                            snapshot st tid @ [Done]))
         else if stopped turn \<or> turn_ac turn \<in> aborted srv
         then
           let st = updateTaskStatus (store srv) t tid canceled (Some ''Canceled by client'')
           in (forget (srv\<lparr>activeRunTaskId := None,
                           inputRequiredFlags := (inputRequiredFlags srv)(tid := None),
                           store := st\<rparr>),
               StreamReply (sent turn @
                            [StatusUpdate tid cid canceled (Some ''Canceled by client'')] @
                            snapshot st tid @ [Done]))
         else
           let finalOutput = (case e of Returned out _ \<Rightarrow> out | Threw _ \<Rightarrow> None);
               lastResponseId = (case e of Returned _ r \<Rightarrow> r | Threw _ \<Rightarrow> None);
               srv1 = srv\<lparr>activeRunTaskId := None\<rparr>;
               fallback = (fullText turn = [] \<and> truthy finalOutput);
               st1 = (if fallback
                      then setTaskArtifacts (store srv1) t tid [responseArtifact (the finalOutput)]
                      else store srv1);
               ev1 = (if fallback then [ArtifactUpdate tid cid (responseArtifact (the finalOutput))]
                      else []);
               st2 = (if truthy lastResponseId then setSession st1 t cid (the lastResponseId)
                      else st1);
               (endState, srv2) = resolveEndState srv1 tid;
               st3 = updateTaskStatus st2 t tid endState None
           in (forget (srv2\<lparr>store := st3\<rparr>),
               StreamReply (sent turn @ ev1 @
                            [StatusUpdate tid cid endState
                               (if endState = input_required then Some ''Waiting for user input''
                                else None)] @
                            snapshot st3 tid @ [Done])))"

text \<open>A whole \<open>message/stream\<close> request with nothing else running in between.\<close>

definition message_stream :: "Server \<Rightarrow> Env \<Rightarrow> Params option \<Rightarrow> Server \<times> Reply" where
  "message_stream srv env ps =
     (case stream_begin srv env ps of
        Inl reply \<Rightarrow> (srv, reply)
      | Inr (srv1, turn) \<Rightarrow>
          let (srv2, turn2) = foldl (stream_event (now env))
                                (if asks (run env) then onInputRequired srv1 else srv1, turn)
                                (events (run env))
          in stream_finish srv2 (now env) turn2 (ending (run env)))"

text \<open>The route \<open>POST /a2a\<close>: dispatch on the method.\<close>

definition handle :: "Server \<Rightarrow> Env \<Rightarrow> A2AJsonRpcRequest \<Rightarrow> Server \<times> Reply" where
  "handle srv env req =
     (if rpc_method req = ''tasks/get'' then tasks_get srv (params req)
      else if rpc_method req = ''tasks/cancel'' then tasks_cancel srv (now env) (params req)
      else if rpc_method req = ''message/send'' \<or> rpc_method req = ''tasks/send''
      then message_send srv env (params req)
      else if rpc_method req = ''message/stream'' \<or> rpc_method req = ''tasks/sendSubscribe''
      then message_stream srv env (params req)
      else (srv, ErrorReply 400 (- 32601) (''Method not found: '' @ rpc_method req)))"

text \<open>A server that has just been created on an empty database.\<close>

definition newServer :: Server where
  "newServer =
     \<lparr>store = \<lparr>sessions = Map.empty, tasks = []\<rparr>, inputRequiredFlags = Map.empty,
      activeRunTaskId = None, abortControllers = Map.empty, aborted = {}, controllers = 0\<rparr>"

text \<open>Requests served one after the other, each to its end before the next begins.\<close>

fun serve :: "Server \<Rightarrow> (Env \<times> A2AJsonRpcRequest) list \<Rightarrow> Server" where
  "serve srv [] = srv"
| "serve srv ((env, req) # rest) = serve (fst (handle srv env req)) rest"


section \<open>Observations used in the statements\<close>

text \<open>The status a reply carries, when it is a result.\<close>

definition replyStatus :: "Reply \<Rightarrow> TaskStatus option" where
  "replyStatus reply = (case reply of ResultReply task \<Rightarrow> Some (a2a_status task) | _ \<Rightarrow> None)"

text \<open>The parameters of a \<open>tasks/get\<close> or \<open>tasks/cancel\<close> request for a task id.\<close>

definition idParams :: "string \<Rightarrow> Params option" where
  "idParams tid = Some \<lparr>params_message = None, params_contextId = None, params_id = Some tid\<rparr>"

text \<open>The parameters of a \<open>message/send\<close> or \<open>message/stream\<close> request with one text part.\<close>

definition textParams :: "string \<Rightarrow> string option \<Rightarrow> Params option" where
  "textParams txt cid =
     Some \<lparr>params_message = Some \<lparr>role = ''user'',
                                   message_parts = [\<lparr>ptype = ''text'', ptext = Some txt\<rparr>]\<rparr>,
           params_contextId = cid, params_id = None\<rparr>"




section \<open>The lifecycle invariant\<close>

text \<open>The columns of the \<open>tasks\<close> table that the lifecycle depends on: id, context and
  state of every row. The other columns (message, artifacts, timestamps) play no part in
  which task a context resumes.\<close>

definition lifecycle :: "Store \<Rightarrow> (string \<times> string \<times> TaskState) list" where
  "lifecycle st = map (\<lambda>r. (row_id r, context_id r, state r)) (tasks st)"

definition setState ::
  "string \<Rightarrow> TaskState \<Rightarrow> (string \<times> string \<times> TaskState) list
     \<Rightarrow> (string \<times> string \<times> TaskState) list" where
  "setState tid s ks = map (\<lambda>(i, c, x). if i = tid then (i, c, s) else (i, c, x)) ks"

text \<open>Between requests: ids are unique (the primary key), and two rows of one context
  that are both \<open>input-required\<close> are the same row.\<close>

definition taskInv :: "(string \<times> string \<times> TaskState) list \<Rightarrow> bool" where
  "taskInv ks \<longleftrightarrow> distinct (map fst ks) \<and>
     (\<forall>k \<in> set ks. \<forall>k' \<in> set ks.
         fst (snd k) = fst (snd k') \<and> snd (snd k) = input_required \<and>
         snd (snd k') = input_required \<longrightarrow> fst k = fst k')"

text \<open>During a turn on task \<open>tid\<close> of context \<open>cid\<close>: the invariant holds, the task
  belongs to the context, and no other task of the context is \<open>input-required\<close>.\<close>

definition busy :: "string \<Rightarrow> string \<Rightarrow> (string \<times> string \<times> TaskState) list \<Rightarrow> bool" where
  "busy tid cid ks \<longleftrightarrow> taskInv ks \<and>
     (\<forall>k \<in> set ks. fst k = tid \<longrightarrow> fst (snd k) = cid) \<and>
     (\<forall>k \<in> set ks. fst (snd k) = cid \<and> snd (snd k) = input_required \<longrightarrow> fst k = tid)"


section \<open>Example states\<close>

definition row0 :: TaskRow where
  "row0 = \<lparr>row_id = ''t1'', context_id = ''c1'', state = working,
           message = Some ''Thinking...'', artifacts = [], created_at = 5, updated_at = 6\<rparr>"

definition store0 :: Store where
  "store0 = \<lparr>sessions = Map.empty, tasks = [row0]\<rparr>"

definition serverW :: Server where
  "serverW = newServer\<lparr>store := store0\<rparr>"

definition cancelParams :: "Params option" where
  "cancelParams =
     Some \<lparr>params_message = None, params_contextId = None, params_id = Some ''t1''\<rparr>"

text \<open>A request environment whose run streams one delta and then throws an error with
  the given message.\<close>

definition envThrow :: "string \<Rightarrow> Env" where
  "envThrow msg =
     \<lparr>now = 3, ctx_uuid = ''c9'', task_uuid = ''t9'',
      run = \<lparr>asks = False, events = [TextDelta (Some ''par'')], ending = Threw msg\<rparr>\<rparr>"



section \<open>Two requests in flight\<close>

text \<open>
  A handler runs without interruption up to an \<open>await\<close>; while it waits for the run of the
  agent, other handlers and the agent's tool callbacks take their turns. The schedule
  below is one such interleaving of two \<open>message/send\<close> requests, A on context \<open>cA\<close> and B
  on context \<open>cB\<close>: A begins and waits for its run; B begins and waits for its run; the
  agent of A's run calls \<open>request_clarification\<close>; A's run returns; B's run returns. The
  result is the pair of replies, A's first.
\<close>

definition envA :: Env where
  "envA = \<lparr>now = 1, ctx_uuid = ''uA'', task_uuid = ''tA'',
           run = \<lparr>asks = True, events = [],
                  ending = Returned (Some ''Which network do you mean?'') None\<rparr>\<rparr>"

definition envB :: Env where
  "envB = \<lparr>now = 2, ctx_uuid = ''uB'', task_uuid = ''tB'',
           run = \<lparr>asks = False, events = [],
                  ending = Returned (Some ''x84 is a settlement layer.'') None\<rparr>\<rparr>"

definition twoSends :: "(Reply \<times> Reply) option" where
  "twoSends =
     (case send_begin newServer envA (textParams ''How do I set it up?'' (Some ''cA'')) of
        Inl _ \<Rightarrow> None
      | Inr (s1, turnA) \<Rightarrow>
          (case send_begin s1 envB (textParams ''What is x84?'' (Some ''cB'')) of
             Inl _ \<Rightarrow> None
           | Inr (s2, turnB) \<Rightarrow>
               let s3 = onInputRequired s2;
                   (s4, replyA) = send_finish s3 3 turnA (ending (run envA));
                   (s5, replyB) = send_finish s4 4 turnB (ending (run envB))
               in Some (replyA, replyB)))"

section \<open>The chunker (rag.ts)\<close>

text \<open>\<open>content.split("\n")\<close>: the lines of a text; a text without a newline is one line.\<close>

fun splitLines :: "string \<Rightarrow> string list" where
  "splitLines [] = [[]]"
| "splitLines (c # cs) =
     (if c = CHR 0x0A then [] # splitLines cs
      else (case splitLines cs of [] \<Rightarrow> [[c]] | l # ls \<Rightarrow> (c # l) # ls))"

text \<open>The white space that \<open>trim()\<close> and the regular expression class \<open>\s\<close> remove, among
  the code units below 256: tab, line feed, vertical tab, form feed, carriage return,
  space and no-break space.\<close>

definition isSpace :: "char \<Rightarrow> bool" where
  "isSpace c \<longleftrightarrow> c \<in> {CHR 0x09, CHR 0x0A, CHR 0x0B, CHR 0x0C, CHR 0x0D, CHR 0x20, CHR 0xA0}"

definition trim :: "string \<Rightarrow> string" where
  "trim s = rev (dropWhile isSpace (rev (dropWhile isSpace s)))"

text \<open>\<open>line.replace(/^#...#\s+/, "")\<close> with \<open>k\<close> number signs: the marker and the white space after
  it are removed where the line begins with them.\<close>

definition stripMarker :: "nat \<Rightarrow> string \<Rightarrow> string" where
  "stripMarker k line =
     (if take k line = replicate k (CHR ''#'') \<and> drop k line \<noteq> [] \<and> isSpace (hd (drop k line))
      then dropWhile isSpace (drop k line) else line)"

text \<open>A number in a template string.\<close>

fun showNat :: "nat \<Rightarrow> string" where
  "showNat n = (if n < 10 then [''0123456789'' ! n]
                else showNat (n div 10) @ [''0123456789'' ! (n mod 10)])"

declare showNat.simps [simp del]

record Chunk =
  chunk_id :: string
  source :: string
  heading :: string
  content :: string

text \<open>The variables of the loop of \<open>chunkMarkdown\<close>.\<close>

record Chunker =
  chunks :: "Chunk list"
  currentHeading :: string
  currentLines :: "string list"

text \<open>"Flush previous chunk": the lines gathered so far become a chunk when their trimmed
  text has more than 50 characters.\<close>

definition flush :: "string \<Rightarrow> Chunker \<Rightarrow> Chunk list" where
  "flush src st =
     (if currentLines st \<noteq> []
      then let text = trim (join ''\<newline>'' (currentLines st))
           in if length text > 50
              then chunks st @ [\<lparr>chunk_id = src @ '':'' @ showNat (length (chunks st)),
                                 source = src, heading = currentHeading st, content = text\<rparr>]
              else chunks st
      else chunks st)"

definition chunkLine :: "string \<Rightarrow> Chunker \<Rightarrow> string \<Rightarrow> Chunker" where
  "chunkLine src st line =
     (if prefix ''## '' line \<and> \<not> prefix ''### '' line
      then \<lparr>chunks = flush src st, currentHeading = trim (stripMarker 2 line),
            currentLines = [line]\<rparr>
      else st\<lparr>currentLines := currentLines st @ [line]\<rparr>)"

text \<open>The variables of the loop of \<open>splitBySubheadings\<close>.\<close>

record SubChunker =
  subChunks :: "Chunk list"
  subHeading :: string
  subLines :: "string list"
  idx :: nat

definition subFlush :: "Chunk \<Rightarrow> SubChunker \<Rightarrow> bool \<Rightarrow> SubChunker" where
  "subFlush chunk st bump =
     (if subLines st \<noteq> []
      then let text = trim (join ''\<newline>'' (subLines st))
           in if length text > 50
              then st\<lparr>subChunks := subChunks st @
                         [\<lparr>chunk_id = source chunk @ '':'' @ chunk_id chunk @ '':'' @ showNat (idx st),
                           source = source chunk, heading = subHeading st, content = text\<rparr>],
                      idx := (if bump then Suc (idx st) else idx st)\<rparr>
              else st
      else st)"

definition subLine :: "Chunk \<Rightarrow> SubChunker \<Rightarrow> string \<Rightarrow> SubChunker" where
  "subLine chunk st line =
     (if prefix ''### '' line
      then (subFlush chunk st True)
             \<lparr>subHeading := heading chunk @ '' > '' @ trim (stripMarker 3 line),
              subLines := [line]\<rparr>
      else st\<lparr>subLines := subLines st @ [line]\<rparr>)"

definition splitBySubheadings :: "Chunk \<Rightarrow> Chunk list" where
  "splitBySubheadings chunk =
     (let st = foldl (subLine chunk)
                 \<lparr>subChunks = [], subHeading = heading chunk, subLines = [], idx = 0\<rparr>
                 (splitLines (content chunk));
          subs = subChunks (subFlush chunk st False)
      in if subs \<noteq> [] then subs else [chunk])"

definition chunkMarkdown :: "string \<Rightarrow> string \<Rightarrow> Chunk list" where
  "chunkMarkdown src text =
     (let st = foldl (chunkLine src)
                 \<lparr>chunks = [], currentHeading = ''Introduction'', currentLines = []\<rparr>
                 (splitLines text)
      in concat (map (\<lambda>chunk. if length (content chunk) > 3000 then splitBySubheadings chunk
                               else [chunk])
                   (flush src st)))"

section \<open>Sections of a text\<close>

text \<open>The lines of a text cut into sections at the lines that satisfy \<open>h\<close>: a section is a
  heading line and the lines up to the next heading line; \<open>cur\<close> holds the lines of the
  section being read. The first section may be empty.\<close>

fun sectionsOf :: "(string \<Rightarrow> bool) \<Rightarrow> string list \<Rightarrow> string list \<Rightarrow> string list list" where
  "sectionsOf h cur [] = [cur]"
| "sectionsOf h cur (l # ls) =
     (if h l then cur # sectionsOf h [l] ls else sectionsOf h (cur @ [l]) ls)"

definition isH2 :: "string \<Rightarrow> bool" where
  "isH2 line \<longleftrightarrow> prefix ''## '' line \<and> \<not> prefix ''### '' line"

definition isH3 :: "string \<Rightarrow> bool" where
  "isH3 line \<longleftrightarrow> prefix ''### '' line"

text \<open>The trimmed texts of the non-empty sections, and those above the noise threshold.\<close>

definition sectionTexts :: "string list list \<Rightarrow> string list" where
  "sectionTexts gs = map (\<lambda>g. trim (join ''\<newline>'' g)) (filter (\<lambda>g. g \<noteq> []) gs)"

definition usable :: "string list \<Rightarrow> string list" where
  "usable ts = filter (\<lambda>t. length t > 50) ts"

definition blank :: "string \<Rightarrow> bool" where
  "blank w \<longleftrightarrow> list_all isSpace w"

text \<open>
  \<open>madeOf text ps\<close>: the text is the pieces \<open>ps\<close>, in order, with nothing but white space
  before, between and after them; every piece but the first begins a line and begins with
  a heading marker. Each piece carries a flag: whether it is kept as a chunk.
  \<open>follows s ps\<close> is the same for what comes after a piece.
\<close>

inductive follows :: "string \<Rightarrow> (string \<times> bool) list \<Rightarrow> bool" where
  follows_end: "blank w \<Longrightarrow> follows w []"
| follows_piece:
    "blank w \<Longrightarrow> w \<noteq> [] \<Longrightarrow> last w = CHR 0x0A \<Longrightarrow> prefix ''##'' p \<Longrightarrow> follows s ps
       \<Longrightarrow> follows (w @ p @ s) ((p, k) # ps)"

inductive madeOf :: "string \<Rightarrow> (string \<times> bool) list \<Rightarrow> bool" where
  madeOf_blank: "blank w \<Longrightarrow> madeOf w []"
| madeOf_piece: "blank w \<Longrightarrow> follows s ps \<Longrightarrow> madeOf (w @ p @ s) ((p, k) # ps)"

definition headed :: "string \<Rightarrow> (string \<times> bool) list \<Rightarrow> bool" where
  "headed s ps \<longleftrightarrow>
     (\<exists>p k ps' s'. ps = (p, k) # ps' \<and> s = p @ s' \<and> prefix ''##'' p \<and> follows s' ps')"

text \<open>The pieces of a section of an oversized chunk, and of a section of a document.\<close>

definition subPieces :: "string list \<Rightarrow> (string \<times> bool) list" where
  "subPieces g = [(trim (join ''\<newline>'' g), length (trim (join ''\<newline>'' g)) > 50)]"

definition refine :: "string \<Rightarrow> (string \<times> bool) list" where
  "refine t =
     (let subs = concat (map subPieces
                   (filter (\<lambda>g. g \<noteq> []) (sectionsOf isH3 [] (splitLines t))))
      in if filter snd subs = [] then [(t, True)] else subs)"

definition topPieces :: "string list \<Rightarrow> (string \<times> bool) list" where
  "topPieces g =
     (let t = trim (join ''\<newline>'' g)
      in if length t \<le> 50 then [(t, False)]
         else if length t \<le> 3000 then [(t, True)]
         else refine t)"

text \<open>The texts of the usable sections of an oversized chunk, and the condition that
  every piece that is not kept is noise: at most 50 characters long.\<close>

definition subTexts :: "string \<Rightarrow> string list" where
  "subTexts t = usable (sectionTexts (sectionsOf isH3 [] (splitLines t)))"

definition noiseOnly :: "(string \<times> bool) list \<Rightarrow> bool" where
  "noiseOnly ps = list_all (\<lambda>(p, kept). kept \<or> length p \<le> 50) ps"

text \<open>A document with an introduction and three sections, of which only the first section
  is longer than the noise threshold; and a chunk whose sub-sections are all noise.\<close>

definition sampleDoc :: string where
  "sampleDoc = ''intro\<newline>## First section\<newline>'' @ replicate 50 (CHR ''a'') @
     ''\<newline>\<newline>## Second\<newline>short\<newline>## Third section    \<newline>'' @ replicate 40 (CHR ''b'') @ ''\<newline>''"

definition noisyChunk :: Chunk where
  "noisyChunk = \<lparr>chunk_id = ''faq.md:0'', source = ''faq.md'', heading = ''General'',
                  content = ''## General\<newline>### a\<newline>### b''\<rparr>"


section \<open>Embeddings and the vector store (rag.ts)\<close>

text \<open>
  A JavaScript number is a double: a finite value, an infinity or \<open>NaN\<close>. The finite
  doubles are real numbers, so \<open>Num r\<close> stands for the double of value \<open>r\<close> (the two zeros
  are one value, they compare equal).
\<close>

datatype number = Num real | PosInf | NegInf | NaN

record EmbeddedChunk = Chunk +
  embedding :: "number list"

record CacheFile =
  sourceHash :: string
  model :: string
  cache_chunks :: "EmbeddedChunk list"

definition EMBEDDING_MODEL :: string where
  "EMBEDDING_MODEL = ''text-embedding-3-small''"

definition KNOWLEDGE_FILES :: "string list" where
  "KNOWLEDGE_FILES = [''protocol.md'', ''sdk-guide.md'', ''faq.md'']"




text \<open>The comparisons \<open>x > y\<close> and \<open>x >= y\<close> of doubles: every comparison with \<open>NaN\<close> is
  false.\<close>

fun above :: "number \<Rightarrow> number \<Rightarrow> bool" where
  "above (Num x) (Num y) \<longleftrightarrow> x > y"
| "above PosInf (Num y) \<longleftrightarrow> True"
| "above PosInf NegInf \<longleftrightarrow> True"
| "above (Num x) NegInf \<longleftrightarrow> True"
| "above _ _ \<longleftrightarrow> False"


text \<open>
  Modelled from the ECMAScript specification, not from code of the repository:
  \<open>Array.prototype.sort(comparefn)\<close> places \<open>x\<close> after \<open>y\<close> when \<open>comparefn(x, y) > 0\<close>, a
  result \<open>NaN\<close> counting as \<open>+0\<close>; for a consistent comparator the result is sorted and
  stable, which determines it: it is the list that the insertion sort \<open>stableSort\<close>
  computes. \<open>after x y\<close> stands for \<open>comparefn(x, y) > 0\<close>.
\<close>

fun insertBy :: "('a \<Rightarrow> 'a \<Rightarrow> bool) \<Rightarrow> 'a \<Rightarrow> 'a list \<Rightarrow> 'a list" where
  "insertBy after x [] = [x]"
| "insertBy after x (y # ys) =
     (if after x y then y # insertBy after x ys else x # y # ys)"

definition stableSort :: "('a \<Rightarrow> 'a \<Rightarrow> bool) \<Rightarrow> 'a list \<Rightarrow> 'a list" where
  "stableSort after xs = foldr (insertBy after) xs []"


text \<open>
  The OpenAI client is outside the repository: \<open>embeddingsCreate\<close> stands for
  \<open>openai.embeddings.create\<close>, which answers the items of \<open>response.data\<close> (index and
  embedding) or throws an error with a message. \<open>embedTexts\<close> sorts the items with the
  comparator \<open>(a, b) => a.index - b.index\<close>, which is consistent: the indices are integers.
\<close>

type_synonym EmbeddingsApi = "string list \<Rightarrow> string + (nat \<times> number list) list"

definition embedTexts :: "EmbeddingsApi \<Rightarrow> string list \<Rightarrow> string + number list list" where
  "embedTexts embeddingsCreate texts =
     (case embeddingsCreate texts of
        Inl err \<Rightarrow> Inl err
      | Inr data \<Rightarrow> Inr (map snd (stableSort (\<lambda>a b. fst a > fst b) data)))"






text \<open>
  What \<open>JSON.parse\<close> answers, as far as \<open>init\<close> reads it. The code gives the value the type
  \<open>CacheFile\<close> without checking it. \<open>ParsedNull\<close> is the value \<open>null\<close>, on which reading
  \<open>cache.sourceHash\<close> throws a \<open>TypeError\<close>. Of any other value \<open>init\<close> reads three
  properties: \<open>sourceHash\<close> and \<open>model\<close>, which are \<open>None\<close> when the property is missing or
  not a string (then \<open>===\<close> with a string is false), and \<open>chunks\<close>, which is \<open>None\<close> when
  the property is missing or \<open>null\<close> (then reading \<open>this.chunks.length\<close> throws a
  \<open>TypeError\<close>). Any other value of \<open>chunks\<close> is loaded as it is; the model reads it at
  its declared type \<open>EmbeddedChunk[]\<close>.
\<close>

datatype Parsed =
    ParsedNull
  | ParsedValue "string option" "string option" "EmbeddedChunk list option"

text \<open>The cache file, as \<open>existsSync\<close> and \<open>readFileSync\<close> find it: not there, there but not
  readable (\<open>readFileSync\<close> throws), or there with its text.\<close>

datatype CacheRead = NoFile | Unreadable | Contents string

text \<open>
  What \<open>init\<close> reads from outside: the knowledge files, the cache file, the SHA-256 digest,
  \<open>JSON.parse\<close> (\<open>None\<close> when it throws a \<open>SyntaxError\<close>), \<open>JSON.stringify\<close>, and the
  embeddings API. The knowledge files are taken to be readable and the cache directory to
  be writable: the errors of the file system outside the \<open>try\<close> block are not modelled.
\<close>

record World =
  readSource :: "string \<Rightarrow> string"
  cacheFile :: CacheRead
  sha256 :: "string \<Rightarrow> string"
  jsonParse :: "string \<Rightarrow> Parsed option"
  jsonStringify :: "CacheFile \<Rightarrow> string"
  embeddingsCreate :: EmbeddingsApi

text \<open>What \<open>init\<close> does: the chunks of the store, the count it returns, the text it writes
  to the cache file if any, and the batches it sends to the embeddings API.\<close>

record InitResult =
  index :: "EmbeddedChunk list"
  returned :: nat
  written :: "string option"
  embedCalls :: "string list list"

definition computeSourceHash :: "World \<Rightarrow> string" where
  "computeSourceHash w = sha256 w (concat (map (readSource w) KNOWLEDGE_FILES))"

definition allChunks :: "World \<Rightarrow> Chunk list" where
  "allChunks w = concat (map (\<lambda>file. chunkMarkdown file (readSource w file)) KNOWLEDGE_FILES)"

definition embeddingText :: "Chunk \<Rightarrow> string" where
  "embeddingText c = ''['' @ source c @ ''] '' @ heading c @ ''\<newline>\<newline>'' @ content c"

text \<open>"Build from scratch". Where the API answers fewer embeddings than texts,
  \<open>embeddings[i]\<close> is \<open>undefined\<close>, which the type \<open>number[]\<close> does not describe: HOL leaves
  \<open>embeddings ! i\<close> unspecified there.\<close>

definition rebuild :: "World \<Rightarrow> string \<Rightarrow> string + InitResult" where
  "rebuild w hash =
     (let texts = map embeddingText (allChunks w)
      in case embedTexts (embeddingsCreate w) texts of
           Inl err \<Rightarrow> Inl err
         | Inr embeddings \<Rightarrow>
             let chunks = map (\<lambda>(i, c). Chunk.extend c \<lparr>embedding = embeddings ! i\<rparr>)
                            (enumerate 0 (allChunks w));
                 cache = \<lparr>sourceHash = hash, model = EMBEDDING_MODEL, cache_chunks = chunks\<rparr>
             in Inr \<lparr>index = chunks, returned = length chunks,
                     written = Some (jsonStringify w cache), embedCalls = [texts]\<rparr>)"





section \<open>Example stores and worlds\<close>












section \<open>Properties of the store\<close>

lemmas store_defs = getSession_def setSession_def rowToTask_def createTask_def getTask_def
  getActiveTask_def updateTaskStatus_def setTaskArtifacts_def appendToTaskArtifact_def

lemmas server_defs = truthy_def extractText_def taskToA2A_def onInputRequired_def
  resolveTask_def resolveEndState_def internalError_def tasks_get_def tasks_cancel_def
  responseArtifact_def send_begin_def send_catch_def send_finish_def message_send_def
  stream_begin_def stream_event_def snapshot_def stream_finish_def message_stream_def
  handle_def newServer_def replyStatus_def idParams_def textParams_def

lemma find_text_appendText:
  "find (\<lambda>p. ptype p = ''text'') (appendText txt ps) =
     Some (case find (\<lambda>p. ptype p = ''text'') ps of
             None \<Rightarrow> \<lparr>ptype = ''text'', ptext = Some txt\<rparr>
           | Some p \<Rightarrow> p\<lparr>ptext := Some ((case ptext p of None \<Rightarrow> [] | Some t \<Rightarrow> t) @ txt)\<rparr>)"
  by (induction ps) auto

lemma textOf_appendText:
  "textOf (a\<lparr>parts := appendText txt (parts a)\<rparr>) = textOf a @ txt"
  by (simp add: textOf_def find_text_appendText split: option.splits)

lemma appendText_twice:
  "appendText v (appendText u ps) = appendText (u @ v) ps"
  by (induction ps) auto

lemma find_map_upd:
  assumes "\<And>r. row_id (f r) = row_id r"
  shows "find (\<lambda>r. row_id r = tid) (map (\<lambda>r. if row_id r = tid then f r else r) rs) =
         map_option f (find (\<lambda>r. row_id r = tid) rs)"
  using assms by (induction rs) auto

lemma find_map_upd_other:
  assumes "\<And>r. row_id (f r) = row_id r" and "tid' \<noteq> tid"
  shows "find (\<lambda>r. row_id r = tid') (map (\<lambda>r. if row_id r = tid then f r else r) rs) =
         find (\<lambda>r. row_id r = tid') rs"
  using assms by (induction rs) auto

lemma getTask_setTaskArtifacts:
  "getTask (setTaskArtifacts st t tid arts) tid =
     map_option (\<lambda>task. task\<lparr>task_artifacts := arts, updatedAt := t\<rparr>) (getTask st tid)"
  unfolding getTask_def setTaskArtifacts_def
  by (simp add: find_map_upd option.map_comp comp_def rowToTask_def)

lemma getTask_updateTaskStatus:
  "getTask (updateTaskStatus st t tid s m) tid =
     map_option (\<lambda>task. task\<lparr>status := \<lparr>status_state = s,
                                         status_message = (if truthy m then m else None)\<rparr>,
                              updatedAt := t\<rparr>) (getTask st tid)"
  unfolding getTask_def updateTaskStatus_def
  by (simp add: find_map_upd option.map_comp comp_def rowToTask_def truthy_def
      split: option.splits)

lemma setTaskArtifacts_twice:
  "setTaskArtifacts (setTaskArtifacts st t tid a) t' tid b = setTaskArtifacts st t' tid b"
  by (simp add: setTaskArtifacts_def comp_def cong: if_cong)

text \<open>
  Claim C9. \<open>updateTaskStatus(taskId, state, message)\<close> leaves the session rows alone and
  keeps every task row in its place; in a row it writes only the state, the message and
  \<open>updated_at\<close>, and only where the row's id is \<open>taskId\<close>: the id, the context, the
  artifacts and \<open>created_at\<close> of every row stay, and a row with another id is unchanged.
\<close>

theorem updateTaskStatus_frame:
  "sessions (updateTaskStatus st t tid s m) = sessions st \<and>
   length (tasks (updateTaskStatus st t tid s m)) = length (tasks st) \<and>
   (\<forall>i < length (tasks st).
      let r = tasks st ! i; r' = tasks (updateTaskStatus st t tid s m) ! i
      in row_id r' = row_id r \<and> context_id r' = context_id r \<and>
         artifacts r' = artifacts r \<and> created_at r' = created_at r \<and>
         (row_id r = tid \<longrightarrow> state r' = s \<and> message r' = m \<and> updated_at r' = t) \<and>
         (row_id r \<noteq> tid \<longrightarrow> r' = r))"
  by (simp add: updateTaskStatus_def Let_def)

theorem updateTaskStatus_frame_witness:
  "tasks (updateTaskStatus store0 9 ''t1'' completed None) =
     [row0\<lparr>state := completed, message := None, updated_at := 9\<rparr>] \<and>
   tasks (updateTaskStatus store0 9 ''t2'' completed None) = [row0]"
  using updateTaskStatus_frame [of store0 9 "''t1''" completed None]
    updateTaskStatus_frame [of store0 9 "''t2''" completed None]
  by (simp add: store0_def row0_def updateTaskStatus_def)

text \<open>
  Claim C10. \<open>appendToTaskArtifact(taskId, txt)\<close> changes nothing when no task has the id.
  For a stored task without artifacts it leaves the single artifact "response" whose only
  part is the text \<open>txt\<close>; for a task with artifacts it leaves the later artifacts alone
  and the first one, under the same name, carries its previous text followed by \<open>txt\<close>.
  Appending \<open>u\<close> and then \<open>v\<close> is appending \<open>u @ v\<close>.
\<close>

theorem appendToTaskArtifact_appends:
  "(getTask st tid = None \<longrightarrow> appendToTaskArtifact st t tid txt = st) \<and>
   (\<forall>task. getTask st tid = Some task \<longrightarrow>
      (task_artifacts task = [] \<longrightarrow>
         map_option task_artifacts (getTask (appendToTaskArtifact st t tid txt) tid) =
           Some [\<lparr>name = ''response'', parts = [\<lparr>ptype = ''text'', ptext = Some txt\<rparr>],
                  append_flag = None\<rparr>]) \<and>
      (\<forall>a rest. task_artifacts task = a # rest \<longrightarrow>
         (\<exists>a'. map_option task_artifacts (getTask (appendToTaskArtifact st t tid txt) tid) =
                 Some (a' # rest) \<and>
               name a' = name a \<and> textOf a' = textOf a @ txt))) \<and>
   appendToTaskArtifact (appendToTaskArtifact st t tid u) t' tid v =
     appendToTaskArtifact st t' tid (u @ v)"
proof (intro conjI allI impI)
  show "appendToTaskArtifact st t tid txt = st" if "getTask st tid = None"
    using that by (simp add: appendToTaskArtifact_def)
next
  fix task assume "getTask st tid = Some task" "task_artifacts task = []"
  then show "map_option task_artifacts (getTask (appendToTaskArtifact st t tid txt) tid) =
           Some [\<lparr>name = ''response'', parts = [\<lparr>ptype = ''text'', ptext = Some txt\<rparr>],
                  append_flag = None\<rparr>]"
    by (simp add: appendToTaskArtifact_def getTask_setTaskArtifacts)
next
  fix task a rest assume "getTask st tid = Some task" "task_artifacts task = a # rest"
  then have "map_option task_artifacts (getTask (appendToTaskArtifact st t tid txt) tid) =
       Some (a\<lparr>parts := appendText txt (parts a)\<rparr> # rest)"
    by (simp add: appendToTaskArtifact_def getTask_setTaskArtifacts)
  then show "\<exists>a'. map_option task_artifacts (getTask (appendToTaskArtifact st t tid txt) tid) =
                 Some (a' # rest) \<and> name a' = name a \<and> textOf a' = textOf a @ txt"
    by (intro exI [of _ "a\<lparr>parts := appendText txt (parts a)\<rparr>"])
       (simp only: textOf_appendText, simp)
next
  show "appendToTaskArtifact (appendToTaskArtifact st t tid u) t' tid v =
     appendToTaskArtifact st t' tid (u @ v)"
  proof (cases "getTask st tid")
    case None
    then show ?thesis by (simp add: appendToTaskArtifact_def)
  next
    case (Some task)
    then show ?thesis
      by (cases "task_artifacts task")
         (simp_all add: appendToTaskArtifact_def getTask_setTaskArtifacts
            setTaskArtifacts_twice appendText_twice)
  qed
qed

theorem appendToTaskArtifact_appends_witness:
  "getTask store0 ''zz'' = None \<and>
   appendToTaskArtifact store0 7 ''zz'' ''abc'' = store0 \<and>
   map_option task_artifacts (getTask store0 ''t1'') = Some [] \<and>
   map_option task_artifacts (getTask (appendToTaskArtifact store0 7 ''t1'' ''abc'') ''t1'') =
     Some [\<lparr>name = ''response'', parts = [\<lparr>ptype = ''text'', ptext = Some ''abc''\<rparr>],
            append_flag = None\<rparr>] \<and>
   map_option (map textOf \<circ> task_artifacts)
     (getTask (appendToTaskArtifact (appendToTaskArtifact store0 7 ''t1'' ''abc'') 8 ''t1'' ''de'')
        ''t1'') = Some [''abcde'']"
  using appendToTaskArtifact_appends [of store0 "''zz''" 7 "''abc''"]
    appendToTaskArtifact_appends [of store0 "''t1''" 7 "''abc''" "''abc''" 8 "''de''"]
  by (simp add: store0_def row0_def appendToTaskArtifact_def getTask_def rowToTask_def
      setTaskArtifacts_def textOf_def)

section \<open>Properties of the endpoint\<close>

lemma tasks_cancel_open:
  assumes "getTask (store srv) tid = Some task" and "tid \<noteq> []"
    and "status_state (status task) \<noteq> completed" "status_state (status task) \<noteq> failed"
  shows "replyStatus (snd (tasks_cancel srv t (idParams tid))) =
           Some \<lparr>status_state = canceled, status_message = Some ''Canceled by client''\<rparr>"
proof -
  have "getTask (updateTaskStatus (store srv) t tid canceled (Some ''Canceled by client'')) tid =
      Some (task\<lparr>status := \<lparr>status_state = canceled,
                                status_message = Some ''Canceled by client''\<rparr>,
                   updatedAt := t\<rparr>)"
    by (simp add: getTask_updateTaskStatus assms(1) truthy_def)
  with assms show ?thesis
    by (cases "abortControllers srv tid")
       (simp_all add: tasks_cancel_def idParams_def truthy_def Let_def replyStatus_def
          taskToA2A_def)
qed

lemma tasks_cancel_finished:
  assumes "getTask (store srv) tid = Some task" and "tid \<noteq> []"
    and "status_state (status task) = completed \<or> status_state (status task) = failed"
  shows "tasks_cancel srv t (idParams tid) =
           (srv, ErrorReply 400 (- 32002) (''Task already '' @ stateName (status_state (status task))))"
  using assms by (auto simp: tasks_cancel_def idParams_def truthy_def Let_def)

text \<open>
  Claim C1. A \<open>tasks/cancel\<close> on a working task answers the task as canceled, and so does a
  second \<open>tasks/cancel\<close> on the task that is now canceled: the handler turns away only
  \<open>completed\<close> and \<open>failed\<close> tasks, so the second request is not rejected with -32002 and
  writes the row once more (its \<open>updated_at\<close> moves from 10 to 11).
\<close>

theorem tasks_cancel_twice_accepted:
  "snd (tasks_cancel serverW 10 cancelParams) =
     ResultReply \<lparr>a2a_id = ''t1'', a2a_contextId = ''c1'',
                  a2a_status = \<lparr>status_state = canceled,
                                status_message = Some ''Canceled by client''\<rparr>,
                  a2a_artifacts = []\<rparr> \<and>
   snd (tasks_cancel (fst (tasks_cancel serverW 10 cancelParams)) 11 cancelParams) =
     ResultReply \<lparr>a2a_id = ''t1'', a2a_contextId = ''c1'',
                  a2a_status = \<lparr>status_state = canceled,
                                status_message = Some ''Canceled by client''\<rparr>,
                  a2a_artifacts = []\<rparr> \<and>
   map updated_at (tasks (store (fst (tasks_cancel serverW 10 cancelParams)))) = [10] \<and>
   map updated_at
     (tasks (store (fst (tasks_cancel (fst (tasks_cancel serverW 10 cancelParams)) 11
                           cancelParams)))) = [11]"
  by (simp add: tasks_cancel_def serverW_def store0_def row0_def cancelParams_def newServer_def
      truthy_def getTask_def rowToTask_def updateTaskStatus_def taskToA2A_def Let_def)

section \<open>The lifecycle invariant is kept\<close>

lemma newest_None [simp]: "newest rs = None \<longleftrightarrow> rs = []"
  by (induction rs) (auto split: option.splits)

lemma newest_in: "newest rs = Some r \<Longrightarrow> r \<in> set rs"
  by (induction rs arbitrary: r) (auto split: option.splits if_splits)

lemma getActiveTask_Some:
  assumes "getActiveTask st cid = Some a"
  shows "\<exists>r \<in> set (tasks st). row_id r = task_id a \<and> context_id r = cid \<and> state r = input_required"
proof -
  from assms obtain r where r: "newest (filter (\<lambda>r. context_id r = cid \<and> state r = input_required) (tasks st)) = Some r"
    and a: "a = rowToTask r"
    by (auto simp: getActiveTask_def)
  from newest_in [OF r] have "r \<in> set (tasks st)" "context_id r = cid" "state r = input_required"
    by auto
  with a show ?thesis by (auto simp: rowToTask_def)
qed

lemma getActiveTask_None:
  "getActiveTask st cid = None \<longleftrightarrow>
     (\<forall>r \<in> set (tasks st). context_id r = cid \<longrightarrow> state r \<noteq> input_required)"
  by (auto simp: getActiveTask_def filter_empty_conv)

lemma getTask_None_iff: "getTask st tid = None \<longleftrightarrow> tid \<notin> row_id ` set (tasks st)"
  by (auto simp: getTask_def find_None_iff)

lemma getTask_Some_task_id: "getTask st tid = Some task \<Longrightarrow> task_id task = tid"
  by (auto simp: getTask_def rowToTask_def find_Some_iff)

lemma lifecycle_setSession [simp]: "lifecycle (setSession st t cid rid) = lifecycle st"
  by (simp add: lifecycle_def setSession_def)

lemma lifecycle_setTaskArtifacts [simp]: "lifecycle (setTaskArtifacts st t tid arts) = lifecycle st"
  by (simp add: lifecycle_def setTaskArtifacts_def comp_def cong: if_cong)

lemma lifecycle_appendToTaskArtifact [simp]: "lifecycle (appendToTaskArtifact st t tid txt) = lifecycle st"
  by (simp add: appendToTaskArtifact_def split: option.splits)

lemma lifecycle_updateTaskStatus [simp]:
  "lifecycle (updateTaskStatus st t tid s m) = setState tid s (lifecycle st)"
  by (simp add: lifecycle_def updateTaskStatus_def setState_def comp_def cong: if_cong)

lemma map_fst_setState [simp]: "map fst (setState tid s ks) = map fst ks"
  by (induction ks) (auto simp: setState_def)

lemma in_setStateD:
  assumes "k \<in> set (setState tid s ks)"
  obtains i c x where "(i, c, x) \<in> set ks" "k = (i, c, if i = tid then s else x)"
  using assms unfolding setState_def by (force split: if_splits)

lemma pairwise_setState:
  assumes pw: "\<forall>k \<in> set ks. \<forall>k' \<in> set ks.
         fst (snd k) = fst (snd k') \<and> snd (snd k) = input_required \<and>
         snd (snd k') = input_required \<longrightarrow> fst k = fst k'"
    and k: "k \<in> set (setState tid s ks)" "k' \<in> set (setState tid s ks)"
    and c: "fst (snd k) = fst (snd k')"
    and ir: "snd (snd k) = input_required" "snd (snd k') = input_required"
    and n: "fst k \<noteq> tid" "fst k' \<noteq> tid"
  shows "fst k = fst k'"
proof -
  from k(1) obtain i c x where j: "(i, c, x) \<in> set ks" "k = (i, c, if i = tid then s else x)"
    by (rule in_setStateD)
  from k(2) obtain i' c' x' where j': "(i', c', x') \<in> set ks"
    "k' = (i', c', if i' = tid then s else x')"
    by (rule in_setStateD)
  from j(2) n(1) ir(1) have 1: "x = input_required" by (simp split: if_splits)
  from j'(2) n(2) ir(2) have 2: "x' = input_required" by (simp split: if_splits)
  from c j(2) j'(2) have 3: "c = c'" by simp
  from pw j(1) j'(1) have "fst (snd (i, c, x)) = fst (snd (i', c', x')) \<and>
       snd (snd (i, c, x)) = input_required \<and> snd (snd (i', c', x')) = input_required
       \<longrightarrow> fst (i, c, x) = fst (i', c', x')"
    by blast
  with 1 2 3 have "i = i'" by simp
  with j(2) j'(2) show ?thesis by simp
qed

lemma busy_setState:
  assumes "busy tid cid ks"
  shows "busy tid cid (setState tid s ks)"
proof -
  let ?ks = "setState tid s ks"
  from assms have i0: "taskInv ks"
    and own0: "\<forall>k \<in> set ks. fst k = tid \<longrightarrow> fst (snd k) = cid"
    and only0: "\<forall>k \<in> set ks. fst (snd k) = cid \<and> snd (snd k) = input_required \<longrightarrow> fst k = tid"
    unfolding busy_def by blast+
  from i0 have d0: "distinct (map fst ks)"
    and pw: "\<forall>k \<in> set ks. \<forall>k' \<in> set ks.
         fst (snd k) = fst (snd k') \<and> snd (snd k) = input_required \<and>
         snd (snd k') = input_required \<longrightarrow> fst k = fst k'"
    unfolding taskInv_def by blast+
  have d: "distinct (map fst ?ks)" using d0 by simp
  have own: "fst (snd k) = cid" if "k \<in> set ?ks" "fst k = tid" for k
  proof -
    from that(1) obtain i c x where j: "(i, c, x) \<in> set ks" "k = (i, c, if i = tid then s else x)"
      by (rule in_setStateD)
    from own0 j(1) have "fst (i, c, x) = tid \<longrightarrow> fst (snd (i, c, x)) = cid" by blast
    with j(2) that(2) show ?thesis by simp
  qed
  have only: "fst k = tid" if "k \<in> set ?ks" "fst (snd k) = cid" "snd (snd k) = input_required" for k
  proof -
    from that(1) obtain i c x where j: "(i, c, x) \<in> set ks" "k = (i, c, if i = tid then s else x)"
      by (rule in_setStateD)
    from only0 j(1) have "fst (snd (i, c, x)) = cid \<and> snd (snd (i, c, x)) = input_required \<longrightarrow> fst (i, c, x) = tid" by blast
    with j(2) that(2,3) show ?thesis by (cases "i = tid") simp_all
  qed
  have "fst k = fst k'"
    if "k \<in> set ?ks" "k' \<in> set ?ks" "fst (snd k) = fst (snd k')"
      "snd (snd k) = input_required" "snd (snd k') = input_required" for k k'
  proof (cases "fst (snd k) = cid")
    case True
    from only [OF that(1) True that(4)] only [OF that(2) _ that(5)] True that(3)
    show ?thesis by simp
  next
    case False
    from own [OF that(1)] False have 1: "fst k \<noteq> tid" by blast
    from own [OF that(2)] False that(3) have 2: "fst k' \<noteq> tid" by auto
    from pw that 1 2 show ?thesis by (rule pairwise_setState)
  qed
  with d own only show ?thesis unfolding busy_def taskInv_def by blast
qed

lemma busy_inv: "busy tid cid ks \<Longrightarrow> taskInv ks"
  by (simp add: busy_def)

lemma inv_setState_other:
  assumes "taskInv ks" and "s \<noteq> input_required"
  shows "taskInv (setState tid s ks)"
proof -
  let ?ks = "setState tid s ks"
  from assms(1) have d0: "distinct (map fst ks)"
    and pw: "\<forall>k \<in> set ks. \<forall>k' \<in> set ks.
         fst (snd k) = fst (snd k') \<and> snd (snd k) = input_required \<and>
         snd (snd k') = input_required \<longrightarrow> fst k = fst k'"
    unfolding taskInv_def by blast+
  have d: "distinct (map fst ?ks)" using d0 by simp
  have ne: "fst k \<noteq> tid" if "k \<in> set ?ks" "snd (snd k) = input_required" for k
  proof -
    from that(1) obtain i c x where j: "(i, c, x) \<in> set ks" "k = (i, c, if i = tid then s else x)"
      by (rule in_setStateD)
    with that(2) assms(2) show ?thesis by (cases "i = tid") simp_all
  qed
  have "fst k = fst k'"
    if "k \<in> set ?ks" "k' \<in> set ?ks" "fst (snd k) = fst (snd k')"
      "snd (snd k) = input_required" "snd (snd k') = input_required" for k k'
    using pw that ne [OF that(1,4)] ne [OF that(2,5)] by (rule pairwise_setState)
  with d show ?thesis unfolding taskInv_def by blast
qed

lemma resolveTask_busy:
  assumes "taskInv (lifecycle st)" and "resolveTask st t cid fresh = Inr (st', tid, resumed)"
  shows "busy tid cid (lifecycle st')"
proof (cases "getActiveTask st cid")
  case None
  with assms(2) have st': "tasks st' = tasks st @ [\<lparr>row_id = fresh, context_id = cid, state = submitted, message = None,
                   artifacts = [], created_at = t, updated_at = t\<rparr>]" and f: "fresh \<notin> row_id ` set (tasks st)" and tid: "tid = fresh"
    by (auto simp: resolveTask_def createTask_def Let_def split: if_splits)
  from None have q: "\<forall>r \<in> set (tasks st). context_id r = cid \<longrightarrow> state r \<noteq> input_required"
    by (simp add: getActiveTask_None)
  have k: "lifecycle st' = lifecycle st @ [(fresh, cid, submitted)]"
    by (simp add: lifecycle_def st')
  from f have f': "\<forall>k \<in> set (lifecycle st). fst k \<noteq> fresh" by (force simp: lifecycle_def image_iff)
  from q have q': "\<forall>k \<in> set (lifecycle st). fst (snd k) = cid \<longrightarrow> snd (snd k) \<noteq> input_required"
    by (auto simp: lifecycle_def)
  have d: "distinct (map fst (lifecycle st'))"
    using assms(1) f' by (auto simp: k taskInv_def)
  have own: "\<forall>k \<in> set (lifecycle st'). fst k = tid \<longrightarrow> fst (snd k) = cid"
    using f' by (auto simp: k tid)
  have only: "\<forall>k \<in> set (lifecycle st'). fst (snd k) = cid \<and> snd (snd k) = input_required \<longrightarrow> fst k = tid"
    using q' by (auto simp: k tid)
  have old: "j \<in> set (lifecycle st)" if "j \<in> set (lifecycle st')" "snd (snd j) = input_required" for j
    using that by (auto simp: k)
  have pw0: "\<forall>k \<in> set (lifecycle st). \<forall>k' \<in> set (lifecycle st).
         fst (snd k) = fst (snd k') \<and> snd (snd k) = input_required \<and>
         snd (snd k') = input_required \<longrightarrow> fst k = fst k'"
    using assms(1) unfolding taskInv_def by (rule conjunct2)
  have pw: "\<forall>k \<in> set (lifecycle st'). \<forall>k' \<in> set (lifecycle st').
         fst (snd k) = fst (snd k') \<and> snd (snd k) = input_required \<and>
         snd (snd k') = input_required \<longrightarrow> fst k = fst k'"
    using pw0 old by blast
  from d own only pw show ?thesis unfolding busy_def taskInv_def by (intro conjI)
next
  case (Some a)
  with assms(2) have e: "st' = st" "tid = task_id a"
    by (auto simp: resolveTask_def)
  from getActiveTask_Some [OF Some] have m: "(tid, cid, input_required) \<in> set (lifecycle st)"
    by (force simp: lifecycle_def e image_iff)
  have own: "\<forall>k \<in> set (lifecycle st). fst k = tid \<longrightarrow> fst (snd k) = cid"
  proof (intro ballI impI)
    fix k assume "k \<in> set (lifecycle st)" "fst k = tid"
    with m assms(1) have "k = (tid, cid, input_required)"
      unfolding taskInv_def by (metis eq_key_imp_eq_value prod.collapse)
    then show "fst (snd k) = cid" by simp
  qed
  have only: "\<forall>k \<in> set (lifecycle st). fst (snd k) = cid \<and> snd (snd k) = input_required \<longrightarrow> fst k = tid"
    using m assms(1) unfolding taskInv_def by (metis fst_conv snd_conv)
  from assms(1) own only show ?thesis unfolding busy_def e by (intro conjI)
qed

lemma store_onInputRequired [simp]: "store (onInputRequired srv) = store srv"
  by (simp add: onInputRequired_def)

lemma send_begin_busy:
  assumes "taskInv (lifecycle (store srv))" and "send_begin srv env ps = Inr (srv1, turn)"
  shows "busy (turn_taskId turn) (turn_contextId turn) (lifecycle (store srv1))"
proof -
  from assms(2) obtain cid st resumed m where
    r: "resolveTask (store srv) (now env) cid (task_uuid env) = Inr (st, turn_taskId turn, resumed)"
    and c: "turn_contextId turn = cid"
    and s: "store srv1 = updateTaskStatus st (now env) (turn_taskId turn) working m"
    by (auto simp: send_begin_def Let_def split: option.splits if_splits sum.splits)
  from resolveTask_busy [OF assms(1) r] show ?thesis
    unfolding s c lifecycle_updateTaskStatus by (rule busy_setState)
qed

lemma send_catch_busy:
  assumes "busy (turn_taskId turn) cid (lifecycle (store srv))"
  shows "busy (turn_taskId turn) cid (lifecycle (store (fst (send_catch srv t turn msg))))"
  using assms by (simp add: send_catch_def busy_setState)

lemma send_finish_busy:
  assumes "busy (turn_taskId turn) cid (lifecycle (store srv))"
  shows "busy (turn_taskId turn) cid (lifecycle (store (fst (send_finish srv t turn e))))"
proof (cases e)
  case (Threw msg)
  with assms show ?thesis by (simp add: send_finish_def send_catch_busy)
next
  case (Returned fo lr)
  obtain es srv2 where r: "resolveEndState (srv\<lparr>activeRunTaskId := None\<rparr>) (turn_taskId turn) = (es, srv2)"
    by (cases "resolveEndState (srv\<lparr>activeRunTaskId := None\<rparr>) (turn_taskId turn)")
  have b: "busy (turn_taskId turn) cid (setState (turn_taskId turn) es (lifecycle (store srv)))"
    using assms by (rule busy_setState)
  show ?thesis
    unfolding Returned send_finish_def
    by (simp add: r Let_def send_catch_def busy_setState b split: option.splits)
qed

lemma message_send_inv:
  assumes "taskInv (lifecycle (store srv))"
  shows "taskInv (lifecycle (store (fst (message_send srv env ps))))"
proof (cases "send_begin srv env ps")
  case (Inl reply)
  with assms show ?thesis by (simp add: message_send_def)
next
  case (Inr p)
  obtain srv1 turn where p: "p = (srv1, turn)" by (cases p)
  from send_begin_busy [OF assms Inr [unfolded p]]
  have "busy (turn_taskId turn) (turn_contextId turn) (lifecycle (store srv1))" .
  then have "busy (turn_taskId turn) (turn_contextId turn)
     (lifecycle (store (if asks (run env) then onInputRequired srv1 else srv1)))" by simp
  then have "busy (turn_taskId turn) (turn_contextId turn)
     (lifecycle (store (fst (send_finish (if asks (run env) then onInputRequired srv1 else srv1)
        (now env) turn (ending (run env))))))"
    by (rule send_finish_busy)
  then show ?thesis unfolding message_send_def Inr p by (simp add: busy_inv)
qed

lemma stream_begin_busy:
  assumes "taskInv (lifecycle (store srv))" and "stream_begin srv env ps = Inr (srv1, turn)"
  shows "busy (turn_taskId turn) (turn_contextId turn) (lifecycle (store srv1))"
proof -
  from assms(2) obtain cid st resumed m where
    r: "resolveTask (store srv) (now env) cid (task_uuid env) = Inr (st, turn_taskId turn, resumed)"
    and c: "turn_contextId turn = cid"
    and s: "store srv1 = updateTaskStatus (if resumed then setTaskArtifacts st (now env) (turn_taskId turn) [] else st)
               (now env) (turn_taskId turn) working m"
    by (auto simp: stream_begin_def Let_def split: option.splits if_splits sum.splits)
  have "lifecycle (store srv1) = setState (turn_taskId turn) working (lifecycle st)"
    unfolding s by simp
  with resolveTask_busy [OF assms(1) r] show ?thesis
    unfolding c by (simp add: busy_setState)
qed

lemma stream_event_lifecycle [simp]:
  "lifecycle (store (fst (stream_event t st ev))) = lifecycle (store (fst st))"
  by (simp add: stream_event_def Let_def split: StreamEvent.splits)

lemma stream_event_turn [simp]:
  "turn_taskId (snd (stream_event t st ev)) = turn_taskId (snd st)"
  "turn_contextId (snd (stream_event t st ev)) = turn_contextId (snd st)"
  by (simp_all add: stream_event_def Let_def split: StreamEvent.splits)

lemma stream_loop_lifecycle [simp]:
  "lifecycle (store (fst (foldl (stream_event t) st evs))) = lifecycle (store (fst st))"
  by (induction evs arbitrary: st) simp_all

lemma stream_loop_turn [simp]:
  "turn_taskId (snd (foldl (stream_event t) st evs)) = turn_taskId (snd st)"
  "turn_contextId (snd (foldl (stream_event t) st evs)) = turn_contextId (snd st)"
  by (induction evs arbitrary: st) simp_all

lemma stream_finish_busy:
  assumes "busy (turn_taskId turn) cid (lifecycle (store srv))"
  shows "busy (turn_taskId turn) cid (lifecycle (store (fst (stream_finish srv t turn e))))"
proof -
  obtain es srv2 where r: "resolveEndState (srv\<lparr>activeRunTaskId := None\<rparr>) (turn_taskId turn) = (es, srv2)"
    by (cases "resolveEndState (srv\<lparr>activeRunTaskId := None\<rparr>) (turn_taskId turn)")
  show ?thesis
    unfolding stream_finish_def
    by (simp add: r Let_def busy_setState assms)
qed

lemma message_stream_inv:
  assumes "taskInv (lifecycle (store srv))"
  shows "taskInv (lifecycle (store (fst (message_stream srv env ps))))"
proof (cases "stream_begin srv env ps")
  case (Inl reply)
  with assms show ?thesis by (simp add: message_stream_def)
next
  case (Inr p)
  obtain srv1 turn where p: "p = (srv1, turn)" by (cases p)
  let ?start = "(if asks (run env) then onInputRequired srv1 else srv1, turn)"
  obtain srv2 turn2 where l: "foldl (stream_event (now env)) ?start (events (run env)) = (srv2, turn2)"
    by (cases "foldl (stream_event (now env)) ?start (events (run env))")
  from stream_begin_busy [OF assms Inr [unfolded p]]
  have "busy (turn_taskId turn) (turn_contextId turn) (lifecycle (store srv1))" .
  moreover have "lifecycle (store srv2) = lifecycle (store srv1)"
    using stream_loop_lifecycle [of "now env" ?start "events (run env)"] unfolding l by simp
  moreover have "turn_taskId turn2 = turn_taskId turn"
    using stream_loop_turn(1) [of "now env" ?start "events (run env)"] unfolding l by simp
  ultimately have "busy (turn_taskId turn2) (turn_contextId turn) (lifecycle (store srv2))" by simp
  then have "busy (turn_taskId turn2) (turn_contextId turn)
     (lifecycle (store (fst (stream_finish srv2 (now env) turn2 (ending (run env))))))"
    by (rule stream_finish_busy)
  then show ?thesis unfolding message_stream_def Inr p by (simp add: l busy_inv)
qed

lemma tasks_cancel_inv:
  assumes "taskInv (lifecycle (store srv))"
  shows "taskInv (lifecycle (store (fst (tasks_cancel srv t ps))))"
  using assms
  by (simp add: tasks_cancel_def Let_def inv_setState_other split: option.splits)

lemma handle_inv:
  assumes "taskInv (lifecycle (store srv))"
  shows "taskInv (lifecycle (store (fst (handle srv env req))))"
  using assms
  by (simp add: handle_def tasks_get_def Let_def tasks_cancel_inv message_send_inv
      message_stream_inv split: option.splits)

lemma serve_inv:
  "taskInv (lifecycle (store srv)) \<Longrightarrow> taskInv (lifecycle (store (serve srv reqs)))"
  by (induction srv reqs rule: serve.induct) (simp_all add: handle_inv)

lemma inv_at_most_one:
  assumes "taskInv ks"
  shows "length (filter (\<lambda>k. fst (snd k) = cid \<and> snd (snd k) = input_required) ks) \<le> 1"
  using assms
proof (induction ks)
  case Nil
  then show ?case by simp
next
  case (Cons k ks)
  from Cons.prems have d: "distinct (map fst (k # ks))"
    and pw: "\<forall>a \<in> set (k # ks). \<forall>b \<in> set (k # ks).
         fst (snd a) = fst (snd b) \<and> snd (snd a) = input_required \<and>
         snd (snd b) = input_required \<longrightarrow> fst a = fst b"
    unfolding taskInv_def by blast+
  from d have d': "distinct (map fst ks)" and nk: "fst k \<notin> fst ` set ks" by simp_all
  from pw have pw': "\<forall>a \<in> set ks. \<forall>b \<in> set ks.
         fst (snd a) = fst (snd b) \<and> snd (snd a) = input_required \<and>
         snd (snd b) = input_required \<longrightarrow> fst a = fst b"
    by (meson list.set_intros(2))
  from d' pw' have i: "taskInv ks" unfolding taskInv_def by (intro conjI)
  show ?case
  proof (cases "fst (snd k) = cid \<and> snd (snd k) = input_required")
    case False
    then have "filter (\<lambda>k. fst (snd k) = cid \<and> snd (snd k) = input_required) (k # ks) =
      filter (\<lambda>k. fst (snd k) = cid \<and> snd (snd k) = input_required) ks"
      by (rule filter.simps(2) [THEN trans, OF if_not_P])
    with Cons.IH [OF i] show ?thesis by simp
  next
    case True
    have "\<not> (fst (snd b) = cid \<and> snd (snd b) = input_required)" if "b \<in> set ks" for b
    proof
      assume b: "fst (snd b) = cid \<and> snd (snd b) = input_required"
      from pw that have "fst (snd k) = fst (snd b) \<and> snd (snd k) = input_required \<and>
         snd (snd b) = input_required \<longrightarrow> fst k = fst b"
        by (meson list.set_intros)
      with True b have "fst k = fst b" by metis
      with nk that show False by (metis imageI)
    qed
    then have "filter (\<lambda>k. fst (snd k) = cid \<and> snd (snd k) = input_required) ks = []"
      unfolding filter_empty_conv by blast
    with True show ?thesis by simp
  qed
qed

lemma count_lifecycle:
  "length (filter (\<lambda>r. context_id r = cid \<and> state r = input_required) (tasks st)) =
   length (filter (\<lambda>k. fst (snd k) = cid \<and> snd (snd k) = input_required) (lifecycle st))"
  by (simp add: lifecycle_def filter_map comp_def)

text \<open>
  Claim C3. Whatever requests (\<open>message/send\<close>, \<open>message/stream\<close>, \<open>tasks/cancel\<close>,
  \<open>tasks/get\<close>, under any method name, with any parameters, clock, uuids and run of the
  agent) a new server on an empty database has served one after the other, every context
  has at most one task in state \<open>input-required\<close>.
\<close>

theorem at_most_one_input_required:
  "length (filter (\<lambda>r. context_id r = cid \<and> state r = input_required)
             (tasks (store (serve newServer reqs)))) \<le> 1"
proof -
  have "taskInv (lifecycle (store newServer))" by (simp add: newServer_def lifecycle_def taskInv_def)
  then have "taskInv (lifecycle (store (serve newServer reqs)))" by (rule serve_inv)
  then show ?thesis unfolding count_lifecycle by (rule inv_at_most_one)
qed

section \<open>Generation failures\<close>

lemma row_ids_lifecycle: "map row_id (tasks st) = map fst (lifecycle st)"
  by (simp add: lifecycle_def comp_def)

lemma resolveTask_present:
  assumes "resolveTask st t cid fresh = Inr (st', tid, resumed)"
  shows "tid \<in> row_id ` set (tasks st')"
proof (cases "getActiveTask st cid")
  case None
  with assms show ?thesis
    by (auto simp: resolveTask_def createTask_def Let_def split: if_splits)
next
  case (Some a)
  with assms have e: "st' = st" "tid = task_id a" by (auto simp: resolveTask_def)
  from getActiveTask_Some [OF Some] show ?thesis unfolding e by force
qed


lemma row_ids_updateTaskStatus [simp]:
  "map row_id (tasks (updateTaskStatus st t tid s m)) = map row_id (tasks st)"
  by (simp add: row_ids_lifecycle)

lemma row_ids_setTaskArtifacts [simp]:
  "map row_id (tasks (setTaskArtifacts st t tid arts)) = map row_id (tasks st)"
  by (simp add: row_ids_lifecycle)

lemma row_ids_appendToTaskArtifact [simp]:
  "map row_id (tasks (appendToTaskArtifact st t tid txt)) = map row_id (tasks st)"
  by (simp add: row_ids_lifecycle)

lemma row_ids_setSession [simp]:
  "map row_id (tasks (setSession st t cid rid)) = map row_id (tasks st)"
  by (simp add: setSession_def)

lemma ids_updateTaskStatus [simp]:
  "row_id ` set (tasks (updateTaskStatus st t tid s m)) = row_id ` set (tasks st)"
  by (simp only: set_map [symmetric] row_ids_updateTaskStatus)

lemma ids_setTaskArtifacts [simp]:
  "row_id ` set (tasks (setTaskArtifacts st t tid arts)) = row_id ` set (tasks st)"
  by (simp only: set_map [symmetric] row_ids_setTaskArtifacts)

lemma ids_appendToTaskArtifact [simp]:
  "row_id ` set (tasks (appendToTaskArtifact st t tid txt)) = row_id ` set (tasks st)"
  by (simp only: set_map [symmetric] row_ids_appendToTaskArtifact)


lemma getTask_present: "tid \<in> row_id ` set (tasks st) \<Longrightarrow> \<exists>task. getTask st tid = Some task"
  using getTask_None_iff [of st tid] by (cases "getTask st tid") auto

lemma getTask_other_setTaskArtifacts:
  "getTask (setTaskArtifacts st t tid arts) tid' =
     (if tid' = tid then map_option (\<lambda>task. task\<lparr>task_artifacts := arts, updatedAt := t\<rparr>) (getTask st tid)
      else getTask st tid')"
  by (simp add: getTask_setTaskArtifacts)
     (simp add: getTask_def setTaskArtifacts_def find_map_upd_other)

lemma getTask_setSession [simp]: "getTask (setSession st t cid rid) tid = getTask st tid"
  by (simp add: getTask_def setSession_def)


lemma send_begin_present:
  assumes "send_begin srv env ps = Inr (srv1, turn)"
  shows "turn_taskId turn \<in> row_id ` set (tasks (store srv1))"
proof -
  from assms obtain cid st resumed m where
    r: "resolveTask (store srv) (now env) cid (task_uuid env) = Inr (st, turn_taskId turn, resumed)"
    and s: "store srv1 = updateTaskStatus st (now env) (turn_taskId turn) working m"
    by (auto simp: send_begin_def Let_def split: option.splits if_splits sum.splits)
  from resolveTask_present [OF r] show ?thesis unfolding s by simp
qed

lemma stream_begin_present:
  assumes "stream_begin srv env ps = Inr (srv1, turn)"
  shows "turn_taskId turn \<in> row_id ` set (tasks (store srv1))"
    and "turn_ac turn = controllers srv" and "aborted srv1 = aborted srv" and "\<not> stopped turn"
proof -
  from assms obtain cid st resumed m where
    r: "resolveTask (store srv) (now env) cid (task_uuid env) = Inr (st, turn_taskId turn, resumed)"
    and s: "store srv1 = updateTaskStatus (if resumed then setTaskArtifacts st (now env) (turn_taskId turn) [] else st)
               (now env) (turn_taskId turn) working m"
    and o: "turn_ac turn = controllers srv" "aborted srv1 = aborted srv" "\<not> stopped turn"
    by (auto simp: stream_begin_def Let_def split: option.splits if_splits sum.splits)
  from resolveTask_present [OF r] show "turn_taskId turn \<in> row_id ` set (tasks (store srv1))"
    unfolding s by simp
  from o show "turn_ac turn = controllers srv" "aborted srv1 = aborted srv" "\<not> stopped turn"
    by simp_all
qed

lemma stream_event_running:
  assumes "\<not> stopped (snd st)" and "turn_ac (snd st) \<notin> aborted (fst st)"
  shows "\<not> stopped (snd (stream_event t st ev))"
    and "turn_ac (snd (stream_event t st ev)) = turn_ac (snd st)"
    and "aborted (fst (stream_event t st ev)) = aborted (fst st)"
  using assms by (simp_all add: stream_event_def Let_def split: StreamEvent.splits)

lemma stream_loop_running:
  assumes "\<not> stopped (snd st)" and "turn_ac (snd st) \<notin> aborted (fst st)"
  shows "\<not> stopped (snd (foldl (stream_event t) st evs)) \<and>
         turn_ac (snd (foldl (stream_event t) st evs)) = turn_ac (snd st) \<and>
         aborted (fst (foldl (stream_event t) st evs)) = aborted (fst st)"
  using assms
proof (induction evs arbitrary: st)
  case Nil
  then show ?case by simp
next
  case (Cons ev evs)
  from stream_event_running [OF Cons.prems, of t ev] Cons.IH [of "stream_event t st ev"]
    Cons.prems(2)
  show ?case by simp
qed

lemma aborted_onInputRequired [simp]: "aborted (onInputRequired srv) = aborted srv"
  by (simp add: onInputRequired_def)

lemma tasks_get_status:
  assumes "getTask (store srv) tid = Some task" and "tid \<noteq> []"
  shows "replyStatus (snd (tasks_get srv (idParams tid))) = Some (status task)"
  using assms by (simp add: tasks_get_def idParams_def truthy_def replyStatus_def taskToA2A_def)

lemma failed_status:
  assumes "tid \<in> row_id ` set (tasks st)" and "msg \<noteq> []"
  shows "\<exists>task. getTask (updateTaskStatus st t tid failed (Some msg)) tid = Some task \<and>
           status task = \<lparr>status_state = failed, status_message = Some msg\<rparr>"
proof -
  from getTask_present [OF assms(1)] obtain task where "getTask st tid = Some task" by blast
  with assms(2) show ?thesis by (simp add: getTask_updateTaskStatus truthy_def)
qed

text \<open>
  Claim C7, as amended. When the run of a \<open>message/send\<close> or \<open>message/stream\<close> request
  throws an error with a non-empty message, the task fails with that message: the
  synchronous request is answered with the internal error -32603 carrying the message,
  the stream carries a \<open>failed\<close> status update with the message, and a later \<open>tasks/get\<close>
  for the task answers the status \<open>failed\<close> with the message. (For the stream, the
  controller made for the request is not aborted, as for any server that serves its
  requests one after the other.)
\<close>

theorem generation_failure_recorded:
  assumes "ending (run env) = Threw msg" and "msg \<noteq> []"
  shows "(send_begin srv env ps = Inr (srv1, turn) \<and> turn_taskId turn \<noteq> [] \<longrightarrow>
            snd (message_send srv env ps) = internalError msg \<and>
            replyStatus (snd (tasks_get (fst (message_send srv env ps))
                                (idParams (turn_taskId turn)))) =
              Some \<lparr>status_state = failed, status_message = Some msg\<rparr>) \<and>
         (stream_begin srv env ps = Inr (srv1, turn) \<and> turn_taskId turn \<noteq> [] \<and>
          controllers srv \<notin> aborted srv \<longrightarrow>
            (\<exists>evs. snd (message_stream srv env ps) = StreamReply evs \<and>
               StatusUpdate (turn_taskId turn) (turn_contextId turn) failed (Some msg) \<in> set evs) \<and>
            replyStatus (snd (tasks_get (fst (message_stream srv env ps))
                                (idParams (turn_taskId turn)))) =
              Some \<lparr>status_state = failed, status_message = Some msg\<rparr>)"
proof (intro conjI impI)
  assume a: "send_begin srv env ps = Inr (srv1, turn) \<and> turn_taskId turn \<noteq> []"
  let ?srv = "if asks (run env) then onInputRequired srv1 else srv1"
  have m: "message_send srv env ps = send_catch ?srv (now env) turn msg"
    using a assms(1) by (simp add: message_send_def send_finish_def)
  show "snd (message_send srv env ps) = internalError msg"
    unfolding m by (simp add: send_catch_def)
  have st: "store (fst (message_send srv env ps)) =
      updateTaskStatus (store srv1) (now env) (turn_taskId turn) failed (Some msg)"
    unfolding m by (simp add: send_catch_def)
  from a have b: "send_begin srv env ps = Inr (srv1, turn)" by simp
  from failed_status [OF send_begin_present [OF b] assms(2)] obtain task where
    "getTask (store (fst (message_send srv env ps))) (turn_taskId turn) = Some task"
    "status task = \<lparr>status_state = failed, status_message = Some msg\<rparr>"
    unfolding st by blast
  with a tasks_get_status [of "fst (message_send srv env ps)" "turn_taskId turn" task]
  show "replyStatus (snd (tasks_get (fst (message_send srv env ps)) (idParams (turn_taskId turn)))) =
              Some \<lparr>status_state = failed, status_message = Some msg\<rparr>"
    by simp
next
  assume a: "stream_begin srv env ps = Inr (srv1, turn) \<and> turn_taskId turn \<noteq> [] \<and>
          controllers srv \<notin> aborted srv"
  let ?start = "(if asks (run env) then onInputRequired srv1 else srv1, turn)"
  obtain srv2 turn2 where l: "foldl (stream_event (now env)) ?start (events (run env)) = (srv2, turn2)"
    by (cases "foldl (stream_event (now env)) ?start (events (run env))")
  from a have b: "stream_begin srv env ps = Inr (srv1, turn)" by simp
  note p = stream_begin_present [OF b]
  have "\<not> stopped (snd ?start)" "turn_ac (snd ?start) \<notin> aborted (fst ?start)"
    using p a by simp_all
  from stream_loop_running [OF this, of "now env" "events (run env)"]
  have run: "\<not> stopped turn2" unfolding l by simp
  have tid: "turn_taskId turn2 = turn_taskId turn" "turn_contextId turn2 = turn_contextId turn"
    using stream_loop_turn [of "now env" ?start "events (run env)"] unfolding l by simp_all
  have ids: "map row_id (tasks (store srv2)) = map row_id (tasks (store srv1))"
    using stream_loop_lifecycle [of "now env" ?start "events (run env)"]
    unfolding l row_ids_lifecycle by simp
  have m: "message_stream srv env ps = stream_finish srv2 (now env) turn2 (Threw msg)"
    using b assms(1) by (simp add: message_stream_def l)
  have st: "store (fst (message_stream srv env ps)) =
      updateTaskStatus (store srv2) (now env) (turn_taskId turn) failed (Some msg)"
    unfolding m using run by (simp add: stream_finish_def Let_def tid)
  show "\<exists>evs. snd (message_stream srv env ps) = StreamReply evs \<and>
               StatusUpdate (turn_taskId turn) (turn_contextId turn) failed (Some msg) \<in> set evs"
    unfolding m using run by (simp add: stream_finish_def Let_def tid)
  from p(1) arg_cong [where f = set, OF ids]
  have "turn_taskId turn \<in> row_id ` set (tasks (store srv2))" by simp
  from failed_status [OF this assms(2)] obtain task where
    "getTask (store (fst (message_stream srv env ps))) (turn_taskId turn) = Some task"
    "status task = \<lparr>status_state = failed, status_message = Some msg\<rparr>"
    unfolding st by blast
  with a tasks_get_status [of "fst (message_stream srv env ps)" "turn_taskId turn" task]
  show "replyStatus (snd (tasks_get (fst (message_stream srv env ps)) (idParams (turn_taskId turn)))) =
              Some \<lparr>status_state = failed, status_message = Some msg\<rparr>"
    by simp
qed

theorem generation_failure_recorded_witness:
  "ending (run (envThrow ''boom'')) = Threw ''boom'' \<and>
   send_begin newServer (envThrow ''boom'') (textParams ''hello'' (Some ''c1'')) =
     Inr (projr (send_begin newServer (envThrow ''boom'') (textParams ''hello'' (Some ''c1'')))) \<and>
   stream_begin newServer (envThrow ''boom'') (textParams ''hello'' (Some ''c1'')) =
     Inr (projr (stream_begin newServer (envThrow ''boom'') (textParams ''hello'' (Some ''c1'')))) \<and>
   controllers newServer \<notin> aborted newServer \<and>
   snd (message_send newServer (envThrow ''boom'') (textParams ''hello'' (Some ''c1''))) =
     internalError ''boom'' \<and>
   replyStatus (snd (tasks_get
       (fst (message_send newServer (envThrow ''boom'') (textParams ''hello'' (Some ''c1''))))
       (idParams ''t9''))) = Some \<lparr>status_state = failed, status_message = Some ''boom''\<rparr> \<and>
   replyStatus (snd (tasks_get
       (fst (message_stream newServer (envThrow ''boom'') (textParams ''hello'' (Some ''c1''))))
       (idParams ''t9''))) = Some \<lparr>status_state = failed, status_message = Some ''boom''\<rparr>"
  using generation_failure_recorded [of "envThrow ''boom''" "''boom''" newServer
      "textParams ''hello'' (Some ''c1'')"
      "fst (projr (send_begin newServer (envThrow ''boom'') (textParams ''hello'' (Some ''c1''))))"
      "snd (projr (send_begin newServer (envThrow ''boom'') (textParams ''hello'' (Some ''c1''))))"]
    generation_failure_recorded [of "envThrow ''boom''" "''boom''" newServer
      "textParams ''hello'' (Some ''c1'')"
      "fst (projr (stream_begin newServer (envThrow ''boom'') (textParams ''hello'' (Some ''c1''))))"
      "snd (projr (stream_begin newServer (envThrow ''boom'') (textParams ''hello'' (Some ''c1''))))"]
  by (simp add: envThrow_def store_defs server_defs Let_def)

text \<open>
  Claim C7 as stated fails for an error with an empty message (\<open>new Error()\<close>): the row
  records the empty message, but \<open>row.message ? { message } : {}\<close> leaves it out of the
  task, and \<open>tasks/get\<close> answers the status \<open>failed\<close> without a message.
\<close>

theorem empty_failure_message_dropped:
  "ending (run (envThrow [])) = Threw [] \<and>
   snd (message_send newServer (envThrow []) (textParams ''hello'' (Some ''c1''))) =
     internalError [] \<and>
   map (\<lambda>r. (row_id r, state r, message r))
     (tasks (store (fst (message_send newServer (envThrow []) (textParams ''hello'' (Some ''c1'')))))) =
     [(''t9'', failed, Some [])] \<and>
   replyStatus (snd (tasks_get
       (fst (message_send newServer (envThrow []) (textParams ''hello'' (Some ''c1''))))
       (idParams ''t9''))) = Some \<lparr>status_state = failed, status_message = None\<rparr>"
  by (simp add: envThrow_def store_defs server_defs Let_def)

section \<open>Resuming a task\<close>















section \<open>Two requests in flight\<close>

text \<open>
  Claim C8. In the schedule \<open>twoSends\<close> the clarification is requested during the run for
  task \<open>tA\<close>, yet \<open>tA\<close> ends \<open>completed\<close> and \<open>tB\<close>, whose run asked nothing, ends
  \<open>input-required\<close>: the callback reads the one variable \<open>activeRunTaskId\<close>, which the
  later request has overwritten, so the flag is set for the other run's task.
\<close>

theorem clarification_marks_other_task:
  "map_option (\<lambda>(replyA, replyB). (replyStatus replyA, replyStatus replyB)) twoSends =
     Some (Some \<lparr>status_state = completed, status_message = None\<rparr>,
           Some \<lparr>status_state = input_required, status_message = None\<rparr>)"
  by (simp add: twoSends_def envA_def envB_def store_defs server_defs Let_def)

section \<open>The chunker keeps the text\<close>

lemma join_append:
  "xs \<noteq> [] \<Longrightarrow> ys \<noteq> [] \<Longrightarrow> join sep (xs @ ys) = join sep xs @ sep @ join sep ys"
  by (induction sep xs rule: join.induct) (auto simp: neq_Nil_conv)

lemma join_hd: "xs \<noteq> [] \<Longrightarrow> prefix (hd xs) (join sep xs)"
  by (induction sep xs rule: join.induct) auto

lemma splitLines_nonempty [simp]: "splitLines s \<noteq> []"
  by (induction s) (auto split: list.splits)

lemma join_splitLines: "join ''\<newline>'' (splitLines s) = s"
proof (induction s)
  case Nil
  show ?case by simp
next
  case (Cons c cs)
  obtain l ls where ls: "splitLines cs = l # ls"
    using splitLines_nonempty [of cs] by (cases "splitLines cs") auto
  show ?case
  proof (cases "c = CHR 0x0A")
    case True
    with Cons ls show ?thesis by simp
  next
    case False
    with Cons ls show ?thesis by (cases ls) auto
  qed
qed

lemma blank_Nil [simp]: "blank []"
  by (simp add: blank_def)

lemma blank_append [simp]: "blank (u @ v) \<longleftrightarrow> blank u \<and> blank v"
  by (simp add: blank_def)

lemma blank_newline [simp]: "blank ''\<newline>''"
  by (simp add: blank_def isSpace_def)

lemma trim_parts: "\<exists>lead trail. blank lead \<and> blank trail \<and> s = lead @ trim s @ trail"
proof -
  let ?m = "dropWhile isSpace s"
  have 1: "s = takeWhile isSpace s @ ?m" by simp
  have "rev ?m = takeWhile isSpace (rev ?m) @ dropWhile isSpace (rev ?m)" by simp
  then have "?m = rev (dropWhile isSpace (rev ?m)) @ rev (takeWhile isSpace (rev ?m))"
    by (metis rev_append rev_rev_ident)
  then have 2: "?m = trim s @ rev (takeWhile isSpace (rev ?m))" by (simp add: trim_def)
  have b1: "blank (takeWhile isSpace s)"
    unfolding blank_def list_all_iff by (meson set_takeWhileD)
  have b2: "blank (rev (takeWhile isSpace (rev ?m)))"
    unfolding blank_def list_all_iff by (metis set_rev set_takeWhileD)
  from 1 2 have "s = takeWhile isSpace s @ trim s @ rev (takeWhile isSpace (rev ?m))" by metis
  with b1 b2 show ?thesis by blast
qed

lemma hash_not_space [simp]: "\<not> isSpace CHR ''#''"
  by (simp add: isSpace_def)

lemma trim_headed:
  assumes "prefix ''##'' s"
  shows "\<exists>trail. blank trail \<and> s = trim s @ trail \<and> prefix ''##'' (trim s)"
proof -
  from assms obtain r where s: "s = ''##'' @ r" by (auto simp: prefix_def)
  have d: "dropWhile isSpace s = s" by (simp add: s)
  have "dropWhile isSpace (rev s) = dropWhile isSpace (rev r) @ ''##'' \<or>
        dropWhile isSpace (rev s) = ''##''"
    unfolding s by (simp add: dropWhile_append)
  then have "trim s = ''##'' @ rev (dropWhile isSpace (rev r)) \<or> trim s = ''##''"
    unfolding trim_def d by auto
  then have p: "prefix ''##'' (trim s)" by auto
  have "rev s = takeWhile isSpace (rev s) @ dropWhile isSpace (rev s)" by simp
  then have "s = rev (dropWhile isSpace (rev s)) @ rev (takeWhile isSpace (rev s))"
    by (metis rev_append rev_rev_ident)
  then have e: "s = trim s @ rev (takeWhile isSpace (rev s))" by (simp add: trim_def d)
  have "blank (rev (takeWhile isSpace (rev s)))"
    unfolding blank_def list_all_iff by (metis set_rev set_takeWhileD)
  with e p show ?thesis by blast
qed

lemma follows_lead:
  assumes "follows s ps" and "blank w"
  shows "follows (w @ s) ps"
  using assms(1)
proof (cases rule: follows.cases)
  case follows_end
  with assms(2) show ?thesis by (simp add: follows.follows_end)
next
  case (follows_piece u p s' ps' k)
  from follows_piece(3-7) assms(2)
  have "follows ((w @ u) @ p @ s') ((p, k) # ps')"
    by (intro follows.follows_piece) simp_all
  with follows_piece(1,2) show ?thesis by simp
qed

lemma follows_append:
  assumes "follows s ps" and "follows s2 ps2"
  shows "follows (s @ s2) (ps @ ps2)"
  using assms
proof (induction rule: follows.induct)
  case (follows_end w)
  then show ?case by (simp add: follows_lead)
next
  case (follows_piece w p s ps k)
  from follows_piece.IH [OF follows_piece.prems] follows_piece.hyps(1-4)
  have "follows (w @ p @ (s @ s2)) ((p, k) # (ps @ ps2))"
    by (intro follows.follows_piece)
  then show ?case by simp
qed

lemma madeOf_append:
  assumes "madeOf s ps" and "follows s2 ps2"
  shows "madeOf (s @ s2) (ps @ ps2)"
  using assms(1)
proof (cases rule: madeOf.cases)
  case madeOf_blank
  from assms(2) show ?thesis
  proof (cases rule: follows.cases)
    case follows_end
    with madeOf_blank show ?thesis by (simp add: madeOf.madeOf_blank)
  next
    case (follows_piece u p s' ps' k)
    from follows_piece(3,7) madeOf_blank(2)
    have "madeOf ((s @ u) @ p @ s') ((p, k) # ps')"
      by (intro madeOf.madeOf_piece) simp_all
    with follows_piece(1,2) madeOf_blank(1) show ?thesis by simp
  qed
next
  case (madeOf_piece w s' ps' p k)
  from follows_append [OF madeOf_piece(4) assms(2)] madeOf_piece(3)
  have "madeOf (w @ p @ (s' @ s2)) ((p, k) # (ps' @ ps2))"
    by (intro madeOf.madeOf_piece)
  with madeOf_piece(1,2) show ?thesis by simp
qed

lemma madeOf_lead:
  assumes "madeOf s ps" and "blank w"
  shows "madeOf (w @ s) ps"
  using assms(1)
proof (cases rule: madeOf.cases)
  case madeOf_blank
  with assms(2) show ?thesis by (simp add: madeOf.madeOf_blank)
next
  case (madeOf_piece u s' ps' p k)
  from madeOf_piece(3,4) assms(2)
  have "madeOf ((w @ u) @ p @ s') ((p, k) # ps')"
    by (intro madeOf.madeOf_piece) simp_all
  with madeOf_piece(1,2) show ?thesis by simp
qed

lemma headed_append:
  assumes "headed s ps" and "follows s2 ps2"
  shows "headed (s @ s2) (ps @ ps2)"
proof -
  from assms(1) obtain p k ps' s' where
    h: "ps = (p, k) # ps'" "s = p @ s'" "prefix ''##'' p" "follows s' ps'"
    unfolding headed_def by blast
  from follows_append [OF h(4) assms(2)] h(1-3) show ?thesis
    unfolding headed_def by auto
qed

lemma headed_follows:
  assumes "headed s ps" and "blank w" "w \<noteq> []" "last w = CHR 0x0A"
  shows "follows (w @ s) ps"
proof -
  from assms(1) obtain p k ps' s' where
    h: "ps = (p, k) # ps'" "s = p @ s'" "prefix ''##'' p" "follows s' ps'"
    unfolding headed_def by blast
  from assms(2-4) h(3,4) have "follows (w @ p @ s') ((p, k) # ps')"
    by (rule follows.follows_piece)
  with h(1,2) show ?thesis by simp
qed

lemma headed_madeOf:
  assumes "headed s ps"
  shows "madeOf s ps"
proof -
  from assms obtain p k ps' s' where
    h: "ps = (p, k) # ps'" "s = p @ s'" "prefix ''##'' p" "follows s' ps'"
    unfolding headed_def by blast
  from h(4) have "madeOf ([] @ p @ s') ((p, k) # ps')"
    by (intro madeOf.madeOf_piece) simp_all
  with h(1,2) show ?thesis by simp
qed


lemma sections_madeOf:
  assumes Hh: "\<And>l. h l \<Longrightarrow> prefix ''##'' l"
    and Fm: "\<And>g. g \<noteq> [] \<Longrightarrow> madeOf (join ''\<newline>'' g) (F g)"
    and Fh: "\<And>g. g \<noteq> [] \<Longrightarrow> prefix ''##'' (hd g) \<Longrightarrow> headed (join ''\<newline>'' g) (F g)"
    and "cur \<noteq> []"
  shows "madeOf (join ''\<newline>'' (cur @ ls))
           (concat (map F (filter (\<lambda>g. g \<noteq> []) (sectionsOf h cur ls)))) \<and>
         (prefix ''##'' (hd cur) \<longrightarrow>
            headed (join ''\<newline>'' (cur @ ls))
              (concat (map F (filter (\<lambda>g. g \<noteq> []) (sectionsOf h cur ls)))))"
  using \<open>cur \<noteq> []\<close>
proof (induction ls arbitrary: cur)
  case Nil
  then show ?case by (simp add: Fm Fh)
next
  case (Cons l ls)
  show ?case
  proof (cases "h l")
    case False
    from Cons.IH [of "cur @ [l]"] Cons.prems False show ?thesis by simp
  next
    case True
    let ?P = "concat (map F (filter (\<lambda>g. g \<noteq> []) (sectionsOf h [l] ls)))"
    from Cons.IH [of "[l]"] Hh [OF True]
    have hd: "headed (join ''\<newline>'' (l # ls)) ?P" by simp
    then have f: "follows (''\<newline>'' @ join ''\<newline>'' (l # ls)) ?P"
      by (rule headed_follows) simp_all
    have t: "join ''\<newline>'' (cur @ l # ls) = join ''\<newline>'' cur @ ''\<newline>'' @ join ''\<newline>'' (l # ls)"
      using Cons.prems by (simp add: join_append)
    have g: "concat (map F (filter (\<lambda>g. g \<noteq> []) (sectionsOf h cur (l # ls)))) = F cur @ ?P"
      using True Cons.prems by simp
    have m: "madeOf (join ''\<newline>'' (cur @ l # ls)) (F cur @ ?P)"
      unfolding t using Fm [OF Cons.prems] f by (rule madeOf_append)
    have h: "headed (join ''\<newline>'' (cur @ l # ls)) (F cur @ ?P)" if "prefix ''##'' (hd cur)"
      unfolding t using Fh [OF Cons.prems that] f by (rule headed_append)
    from m h show ?thesis unfolding g by blast
  qed
qed

lemma usable_append [simp]: "usable (xs @ ys) = usable xs @ usable ys"
  by (simp add: usable_def)

lemma sectionTexts_Cons:
  "sectionTexts (g # gs) = sectionTexts [g] @ sectionTexts gs"
  by (simp add: sectionTexts_def)

lemma flush_content:
  "map content (flush src st) = map content (chunks st) @ usable (sectionTexts [currentLines st])"
  by (simp add: flush_def Let_def sectionTexts_def usable_def)

lemma chunkLine_isH2:
  "chunkLine src st l =
     (if isH2 l
      then \<lparr>chunks = flush src st, currentHeading = trim (stripMarker 2 l), currentLines = [l]\<rparr>
      else st\<lparr>currentLines := currentLines st @ [l]\<rparr>)"
  by (simp add: chunkLine_def isH2_def)

lemma subLine_isH3:
  "subLine c st l =
     (if isH3 l
      then (subFlush c st True)\<lparr>subHeading := heading c @ '' > '' @ trim (stripMarker 3 l),
                                subLines := [l]\<rparr>
      else st\<lparr>subLines := subLines st @ [l]\<rparr>)"
  by (simp add: subLine_def isH3_def)

lemma chunk_loop:
  "map content (flush src (foldl (chunkLine src) st ls)) =
     map content (chunks st) @ usable (sectionTexts (sectionsOf isH2 (currentLines st) ls))"
proof (induction ls arbitrary: st)
  case Nil
  show ?case by (simp add: flush_content)
next
  case (Cons l ls)
  show ?case
  proof (cases "isH2 l")
    case True
    then have "chunkLine src st l =
        \<lparr>chunks = flush src st, currentHeading = trim (stripMarker 2 l), currentLines = [l]\<rparr>"
      by (simp add: chunkLine_isH2)
    moreover have "sectionTexts (currentLines st # sectionsOf isH2 [l] ls) =
        sectionTexts [currentLines st] @ sectionTexts (sectionsOf isH2 [l] ls)"
      by (rule sectionTexts_Cons)
    ultimately show ?thesis
      using Cons.IH [of "chunkLine src st l"] True by (simp add: flush_content)
  next
    case False
    then have "chunkLine src st l = st\<lparr>currentLines := currentLines st @ [l]\<rparr>"
      by (simp add: chunkLine_isH2)
    with Cons.IH [of "chunkLine src st l"] False show ?thesis by simp
  qed
qed

lemma subFlush_content:
  "map content (subChunks (subFlush c st b)) =
     map content (subChunks st) @ usable (sectionTexts [subLines st])"
  by (simp add: subFlush_def Let_def sectionTexts_def usable_def)

lemma sub_loop:
  "map content (subChunks (subFlush c (foldl (subLine c) st ls) b)) =
     map content (subChunks st) @ usable (sectionTexts (sectionsOf isH3 (subLines st) ls))"
proof (induction ls arbitrary: st)
  case Nil
  show ?case by (simp add: subFlush_content)
next
  case (Cons l ls)
  show ?case
  proof (cases "isH3 l")
    case True
    then have "subChunks (subLine c st l) = subChunks (subFlush c st True)"
      "subLines (subLine c st l) = [l]"
      by (simp_all add: subLine_isH3)
    moreover have "sectionTexts (subLines st # sectionsOf isH3 [l] ls) =
        sectionTexts [subLines st] @ sectionTexts (sectionsOf isH3 [l] ls)"
      by (rule sectionTexts_Cons)
    ultimately show ?thesis
      using Cons.IH [of "subLine c st l"] True by (simp add: subFlush_content)
  next
    case False
    then have "subLine c st l = st\<lparr>subLines := subLines st @ [l]\<rparr>"
      by (simp add: subLine_isH3)
    with Cons.IH [of "subLine c st l"] False show ?thesis by simp
  qed
qed

lemma splitBySubheadings_content:
  "map content (splitBySubheadings c) =
     (if subTexts (content c) \<noteq> [] then subTexts (content c) else [content c])"
proof -
  let ?st = "foldl (subLine c)
                 \<lparr>subChunks = [], subHeading = heading c, subLines = [], idx = 0\<rparr>
                 (splitLines (content c))"
  have e: "map content (subChunks (subFlush c ?st False)) = subTexts (content c)"
    by (simp add: sub_loop subTexts_def)
  then have "subChunks (subFlush c ?st False) \<noteq> [] \<longleftrightarrow> subTexts (content c) \<noteq> []"
    by (metis map_is_Nil_conv)
  with e show ?thesis by (simp add: splitBySubheadings_def Let_def)
qed

lemma chunkMarkdown_content:
  "map content (chunkMarkdown src text) =
     concat (map (\<lambda>t. if length t > 3000 then (if subTexts t \<noteq> [] then subTexts t else [t])
                       else [t])
               (usable (sectionTexts (sectionsOf isH2 [] (splitLines text)))))"
proof -
  let ?st = "foldl (chunkLine src)
                 \<lparr>chunks = [], currentHeading = ''Introduction'', currentLines = []\<rparr>
                 (splitLines text)"
  let ?g = "\<lambda>t. if length t > 3000 then (if subTexts t \<noteq> [] then subTexts t else [t]) else [t]"
  have e: "map content (flush src ?st) = usable (sectionTexts (sectionsOf isH2 [] (splitLines text)))"
    by (simp add: chunk_loop)
  have "map content (chunkMarkdown src text) =
      concat (map (\<lambda>c. ?g (content c)) (flush src ?st))"
    by (simp add: chunkMarkdown_def Let_def map_concat comp_def splitBySubheadings_content
        if_distrib [of "map content"] cong: if_cong)
  also have "\<dots> = concat (map ?g (map content (flush src ?st)))"
    by (simp add: comp_def)
  finally show ?thesis unfolding e .
qed


lemma subPieces_kept:
  "map fst (filter snd (concat (map subPieces gs))) =
     usable (map (\<lambda>g. trim (join ''\<newline>'' g)) gs)"
  by (induction gs) (simp_all add: subPieces_def usable_def)

lemma refine_kept:
  "map fst (filter snd (refine t)) = (if subTexts t \<noteq> [] then subTexts t else [t])"
proof -
  let ?subs = "concat (map subPieces (filter (\<lambda>g. g \<noteq> []) (sectionsOf isH3 [] (splitLines t))))"
  have e: "map fst (filter snd ?subs) = subTexts t"
    by (simp add: subPieces_kept subTexts_def sectionTexts_def)
  then have "filter snd ?subs = [] \<longleftrightarrow> subTexts t = []"
    by (metis map_is_Nil_conv)
  with e show ?thesis by (simp add: refine_def Let_def)
qed

lemma topPieces_kept:
  "map fst (filter snd (concat (map topPieces gs))) =
     concat (map (\<lambda>t. if length t > 3000 then (if subTexts t \<noteq> [] then subTexts t else [t])
                       else [t])
               (usable (map (\<lambda>g. trim (join ''\<newline>'' g)) gs)))"
proof (induction gs)
  case Nil
  show ?case by (simp add: usable_def)
next
  case (Cons g gs)
  have "usable (map (\<lambda>g. trim (join ''\<newline>'' g)) (g # gs)) =
      usable [trim (join ''\<newline>'' g)] @ usable (map (\<lambda>g. trim (join ''\<newline>'' g)) gs)"
    by (simp add: usable_def)
  moreover have "map fst (filter snd (topPieces g)) =
     concat (map (\<lambda>t. if length t > 3000 then (if subTexts t \<noteq> [] then subTexts t else [t])
                       else [t])
               (usable [trim (join ''\<newline>'' g)]))"
    by (simp add: topPieces_def Let_def usable_def refine_kept)
  ultimately show ?case using Cons.IH by simp
qed

lemma noiseOnly_append [simp]: "noiseOnly (ps @ qs) \<longleftrightarrow> noiseOnly ps \<and> noiseOnly qs"
  by (simp add: noiseOnly_def)

lemma noiseOnly_subPieces: "noiseOnly (concat (map subPieces gs))"
  by (induction gs) (auto simp: noiseOnly_def subPieces_def)

lemma noiseOnly_topPieces: "noiseOnly (concat (map topPieces gs))"
proof (induction gs)
  case Nil
  show ?case by (simp add: noiseOnly_def)
next
  case (Cons g gs)
  have "noiseOnly (topPieces g)"
    using noiseOnly_subPieces
    by (simp add: topPieces_def refine_def Let_def) (simp add: noiseOnly_def)
  with Cons show ?case by simp
qed

lemma piece_madeOf: "madeOf s [(trim s, k)]"
proof -
  from trim_parts [of s] obtain lead trail where
    p: "blank lead" "blank trail" "s = lead @ trim s @ trail" by blast
  from p(1) follows_end [OF p(2)] have "madeOf (lead @ trim s @ trail) [(trim s, k)]"
    by (rule madeOf_piece)
  with p(3) show ?thesis by simp
qed

lemma piece_headed:
  assumes "prefix ''##'' s"
  shows "headed s [(trim s, k)]"
proof -
  from trim_headed [OF assms] obtain trail where
    p: "blank trail" "s = trim s @ trail" "prefix ''##'' (trim s)" by blast
  from follows_end [OF p(1)] p(2,3) show ?thesis unfolding headed_def by blast
qed

lemma whole_headed:
  assumes "prefix ''##'' t"
  shows "headed t [(t, k)]"
proof -
  have "follows [] []" by (rule follows_end) simp
  with assms show ?thesis unfolding headed_def by auto
qed

lemma whole_madeOf: "madeOf t [(t, k)]"
proof -
  have "follows [] []" by (rule follows_end) simp
  then have "madeOf ([] @ t @ []) [(t, k)]" by (intro madeOf_piece) simp_all
  then show ?thesis by simp
qed

lemma join_headed:
  assumes "g \<noteq> []" and "prefix ''##'' (hd g)"
  shows "prefix ''##'' (join sep g)"
  using join_hd [OF assms(1), of sep] assms(2) by (rule prefix_order.trans [rotated])

lemma isH3_headed: "isH3 l \<Longrightarrow> prefix ''##'' l"
  by (auto simp: isH3_def prefix_def)

lemma isH2_headed: "isH2 l \<Longrightarrow> prefix ''##'' l"
  by (auto simp: isH2_def prefix_def)

lemma hd_splitLines: "c \<noteq> CHR 0x0A \<Longrightarrow> hd (splitLines (c # cs)) = c # hd (splitLines cs)"
  by (simp split: list.splits)

lemma splitLines_headed:
  assumes "prefix ''##'' t"
  shows "prefix ''##'' (hd (splitLines t))"
proof -
  from assms obtain r where t: "t = CHR ''#'' # CHR ''#'' # r" by (auto simp: prefix_def)
  have n: "CHR ''#'' \<noteq> CHR 0x0A" by simp
  show ?thesis unfolding t hd_splitLines [OF n] by simp
qed

lemma sections_start:
  "filter (\<lambda>g. g \<noteq> []) (sectionsOf h [] (l # ls)) = filter (\<lambda>g. g \<noteq> []) (sectionsOf h [l] ls)"
  by simp

lemma text_madeOf:
  assumes Hh: "\<And>l. h l \<Longrightarrow> prefix ''##'' l"
    and Fm: "\<And>g. g \<noteq> [] \<Longrightarrow> madeOf (join ''\<newline>'' g) (F g)"
    and Fh: "\<And>g. g \<noteq> [] \<Longrightarrow> prefix ''##'' (hd g) \<Longrightarrow> headed (join ''\<newline>'' g) (F g)"
  shows "madeOf t (concat (map F (filter (\<lambda>g. g \<noteq> []) (sectionsOf h [] (splitLines t)))))"
    and "prefix ''##'' t \<Longrightarrow>
           headed t (concat (map F (filter (\<lambda>g. g \<noteq> []) (sectionsOf h [] (splitLines t)))))"
proof -
  obtain l ls where ls: "splitLines t = l # ls"
    using splitLines_nonempty [of t] by (cases "splitLines t") auto
  have t: "join ''\<newline>'' ([l] @ ls) = t"
    using join_splitLines [of t] ls by simp
  have "[l] \<noteq> []" by simp
  note * = sections_madeOf [of h F "[l]" ls, OF Hh Fm Fh this, unfolded t]
  from * show "madeOf t (concat (map F (filter (\<lambda>g. g \<noteq> []) (sectionsOf h [] (splitLines t)))))"
    unfolding ls sections_start by blast
  assume "prefix ''##'' t"
  from splitLines_headed [OF this] have "prefix ''##'' (hd [l])" by (simp add: ls)
  with * show "headed t (concat (map F (filter (\<lambda>g. g \<noteq> []) (sectionsOf h [] (splitLines t)))))"
    unfolding ls sections_start by blast
qed

lemma subPieces_madeOf: "madeOf (join ''\<newline>'' g) (subPieces g)"
  unfolding subPieces_def by (rule piece_madeOf)

lemma subPieces_headed:
  "g \<noteq> [] \<Longrightarrow> prefix ''##'' (hd g) \<Longrightarrow> headed (join ''\<newline>'' g) (subPieces g)"
  unfolding subPieces_def by (rule piece_headed) (rule join_headed)

lemma refine_madeOf: "madeOf t (refine t)"
  unfolding refine_def Let_def
  using text_madeOf(1) [of isH3 subPieces t, OF isH3_headed subPieces_madeOf subPieces_headed]
  by (simp add: whole_madeOf)

lemma refine_headed: "prefix ''##'' t \<Longrightarrow> headed t (refine t)"
  unfolding refine_def Let_def
  using text_madeOf(2) [of isH3 subPieces t, OF isH3_headed subPieces_madeOf subPieces_headed]
  by (simp add: whole_headed)

lemma topPieces_madeOf: "madeOf (join ''\<newline>'' g) (topPieces g)"
proof -
  let ?s = "join ''\<newline>'' g"
  from trim_parts [of ?s] obtain lead trail where
    p: "blank lead" "blank trail" "?s = lead @ trim ?s @ trail" by blast
  from refine_madeOf [of "trim ?s"] follows_end [OF p(2)]
  have "madeOf (trim ?s @ trail) (refine (trim ?s) @ [])" by (rule madeOf_append)
  then have "madeOf (lead @ trim ?s @ trail) (refine (trim ?s))"
    using p(1) by (simp add: madeOf_lead)
  with p(3) have "madeOf ?s (refine (trim ?s))" by simp
  then show ?thesis by (simp add: topPieces_def Let_def piece_madeOf)
qed

lemma topPieces_headed:
  assumes "g \<noteq> []" and "prefix ''##'' (hd g)"
  shows "headed (join ''\<newline>'' g) (topPieces g)"
proof -
  let ?s = "join ''\<newline>'' g"
  have h: "prefix ''##'' ?s" using assms by (rule join_headed)
  from trim_headed [OF h] obtain trail where
    p: "blank trail" "?s = trim ?s @ trail" "prefix ''##'' (trim ?s)" by blast
  from refine_headed [OF p(3)] follows_end [OF p(1)]
  have "headed (trim ?s @ trail) (refine (trim ?s) @ [])" by (rule headed_append)
  with p(2) have "headed ?s (refine (trim ?s))" by simp
  then show ?thesis by (simp add: topPieces_def Let_def piece_headed [OF h])
qed

text \<open>
  Claim C5. For every document there are pieces such that the text is exactly these
  pieces in order with only white space around them, every piece after the first begins
  a line and begins with a heading marker, the contents of the chunks of \<open>chunkMarkdown\<close>
  are, in order, the pieces that are kept, and every piece that is not kept has at most
  50 characters. A chunk none of whose sub-sections is longer than the threshold is
  returned whole by \<open>splitBySubheadings\<close>.
\<close>

theorem chunkMarkdown_reconstructs:
  "(\<exists>ps. madeOf text ps \<and> noiseOnly ps \<and>
          map content (chunkMarkdown src text) = map fst (filter snd ps)) \<and>
   (subTexts (content chunk) = [] \<longrightarrow> splitBySubheadings chunk = [chunk])"
proof
  let ?ps = "concat (map topPieces (filter (\<lambda>g. g \<noteq> []) (sectionsOf isH2 [] (splitLines text))))"
  have "madeOf text ?ps"
    by (rule text_madeOf(1) [of isH2 topPieces, OF isH2_headed topPieces_madeOf topPieces_headed])
  moreover have "noiseOnly ?ps" by (rule noiseOnly_topPieces)
  moreover have "map content (chunkMarkdown src text) = map fst (filter snd ?ps)"
    by (simp add: chunkMarkdown_content topPieces_kept sectionTexts_def)
  ultimately show "\<exists>ps. madeOf text ps \<and> noiseOnly ps \<and>
          map content (chunkMarkdown src text) = map fst (filter snd ps)"
    by blast
next
  show "subTexts (content chunk) = [] \<longrightarrow> splitBySubheadings chunk = [chunk]"
  proof
    assume e: "subTexts (content chunk) = []"
    let ?st = "foldl (subLine chunk)
                 \<lparr>subChunks = [], subHeading = heading chunk, subLines = [], idx = 0\<rparr>
                 (splitLines (content chunk))"
    have "map content (subChunks (subFlush chunk ?st False)) = subTexts (content chunk)"
      by (simp add: sub_loop subTexts_def)
    with e have "subChunks (subFlush chunk ?st False) = []" by simp
    then show "splitBySubheadings chunk = [chunk]"
      by (simp add: splitBySubheadings_def Let_def)
  qed
qed

theorem chunkMarkdown_reconstructs_witness:
  "(\<exists>ps. madeOf sampleDoc ps \<and> noiseOnly ps \<and>
          [''## First section\<newline>'' @ replicate 50 (CHR ''a''),
           ''## Third section    \<newline>'' @ replicate 40 (CHR ''b'')] = map fst (filter snd ps)) \<and>
   subTexts (content noisyChunk) = [] \<and> splitBySubheadings noisyChunk = [noisyChunk]"
proof -
  have e1: "map content (chunkMarkdown ''protocol.md'' sampleDoc) =
     [''## First section\<newline>'' @ replicate 50 (CHR ''a''),
      ''## Third section    \<newline>'' @ replicate 40 (CHR ''b'')]"
    by code_simp
  have e2: "subTexts (content noisyChunk) = []"
    by code_simp
  from chunkMarkdown_reconstructs [of sampleDoc "''protocol.md''" noisyChunk] e2
  show ?thesis unfolding e1 by blast
qed


section \<open>Search\<close>


lemma length_insertBy [simp]: "length (insertBy after x ys) = Suc (length ys)"
  by (induction ys) simp_all

lemma length_stableSort [simp]: "length (stableSort after xs) = length xs"
  by (induction xs) (simp_all add: stableSort_def)

lemma set_insertBy [simp]: "set (insertBy after x ys) = insert x (set ys)"
  by (induction ys) auto

lemma set_stableSort [simp]: "set (stableSort after xs) = set xs"
  by (induction xs) (simp_all add: stableSort_def)

lemma above_irrefl [simp]: "\<not> above x x"
  by (cases x) simp_all














section \<open>The embedding cache\<close>

lemma computeSourceHash_cacheFile [simp]:
  "computeSourceHash (w\<lparr>cacheFile := c\<rparr>) = computeSourceHash w"
  by (simp add: computeSourceHash_def)

lemma allChunks_cacheFile [simp]: "allChunks (w\<lparr>cacheFile := c\<rparr>) = allChunks w"
  by (simp add: allChunks_def)

lemma rebuild_cacheFile [simp]: "rebuild (w\<lparr>cacheFile := c\<rparr>) h = rebuild w h"
  by (simp add: rebuild_def Let_def split: sum.splits)





lemma map_enumerate_fst:
  "map (\<lambda>(i, c). f c) (enumerate n xs) = map f xs"
  by (induction xs arbitrary: n) simp_all











end
